theory Spec2Isabelle
  imports Main "HOL-Library.Word"
begin

section \<open>Bytes and their order\<close>

text \<open>
  Keys and values of the store are Go byte slices. A slice that may be \<open>nil\<close> is a
  \<open>bytes option\<close>: the cursor of the store hands \<open>nil\<close> to a visitor exactly for an
  entry that is a nested bucket.
\<close>

type_synonym byte = "8 word"
type_synonym bytes = "byte list"

text \<open>\<open>bytes.Compare(a, b) < 0\<close>: the order in which a bucket keeps its keys.\<close>

fun bytes_less :: "bytes \<Rightarrow> bytes \<Rightarrow> bool" where
  "bytes_less [] [] = False"
| "bytes_less [] (y # ys) = True"
| "bytes_less (x # xs) [] = False"
| "bytes_less (x # xs) (y # ys) = (x < y \<or> (x = y \<and> bytes_less xs ys))"

definition bytes_le :: "bytes \<Rightarrow> bytes \<Rightarrow> bool" where
  "bytes_le a b = (a = b \<or> bytes_less a b)"

text \<open>
  Modelled from the spec: the constant \<open>byteOrder\<close> of the package is declared outside
  this file; the spec fixes it as big-endian ("timestamp (8 bytes, big-endian)").
  \<open>PutUint64\<close> stores the most significant byte first.
\<close>

definition PutUint64 :: "64 word \<Rightarrow> bytes" where
  "PutUint64 v =
     [ucast (drop_bit 56 v), ucast (drop_bit 48 v), ucast (drop_bit 40 v),
      ucast (drop_bit 32 v), ucast (drop_bit 24 v), ucast (drop_bit 16 v),
      ucast (drop_bit 8 v), ucast v]"

text \<open>
  \<open>copy(arr[lo:hi], src)\<close> on an array \<open>arr\<close>: the first \<open>min (hi - lo) (len src)\<close>
  bytes of \<open>src\<close> overwrite the array from position \<open>lo\<close>; the rest of the array stays.
\<close>

definition copy_into :: "bytes \<Rightarrow> nat \<Rightarrow> nat \<Rightarrow> bytes \<Rightarrow> bytes" where
  "copy_into arr lo hi src =
     take lo arr @ take (hi - lo) src @ drop (lo + min (hi - lo) (length src)) arr"

text \<open>
  \<open>s[:n]\<close> on a slice handed out by the store, whose capacity is its length: a run-time
  panic when \<open>n\<close> exceeds it (always for \<open>nil\<close>, when \<open>0 < n\<close>).
\<close>

definition slice_to :: "bytes option \<Rightarrow> nat \<Rightarrow> bytes option" where
  "slice_to s n =
     (case s of
        None \<Rightarrow> (if n = 0 then Some [] else None)
      | Some v \<Rightarrow> (if n \<le> length v then Some (take n v) else None))"

text \<open>\<open>bytes.NewReader(b)\<close>: reading \<open>nil\<close> is reading the empty sequence.\<close>

definition NewReader :: "bytes option \<Rightarrow> bytes" where
  "NewReader b = (case b of None \<Rightarrow> [] | Some v \<Rightarrow> v)"

section \<open>Errors\<close>

datatype error =
    ErrBucketNameRequired
  | ErrIncompatibleValue
  | ErrKeyRequired
  | ErrKeyTooLarge
  | ErrValueTooLarge
  | CodecError string
  | Errorf string error

text \<open>
  A call either returns an error value or panics; \<open>fmt.Errorf\<close> wraps a returned error
  and a panic passes through it.
\<close>

datatype failure = Returned error | Panicked

fun wrap :: "string \<Rightarrow> failure \<Rightarrow> failure" where
  "wrap msg (Returned e) = Returned (Errorf msg e)"
| "wrap msg Panicked = Panicked"

section \<open>The store: nested buckets inside one writable transaction\<close>

text \<open>
  A bucket holds its entries in key order; an entry is a leaf value or a nested bucket.
  The transaction is its root bucket, and a bucket handle (\<open>*bolt.Bucket\<close>) is the path
  of names from the root, so that two handles on one bucket see each other's writes.
  The transaction is open and writable throughout (the migrations run inside one update).
\<close>

datatype item = Leaf bytes | Sub bucket
and bucket = Bkt (entries: "(bytes \<times> item) list")

type_synonym handle = "bytes list"

definition lookup :: "bytes \<Rightarrow> bucket \<Rightarrow> item option" where
  "lookup k b = map_of (entries b) k"

fun replace_entry :: "bytes \<Rightarrow> item \<Rightarrow> (bytes \<times> item) list \<Rightarrow> (bytes \<times> item) list" where
  "replace_entry k it [] = []"
| "replace_entry k it ((k', it') # es) =
     (if k = k' then (k, it) # es else (k', it') # replace_entry k it es)"

fun insert_entry :: "bytes \<Rightarrow> item \<Rightarrow> (bytes \<times> item) list \<Rightarrow> (bytes \<times> item) list" where
  "insert_entry k it [] = [(k, it)]"
| "insert_entry k it ((k', it') # es) =
     (if bytes_less k k' then (k, it) # (k', it') # es else (k', it') # insert_entry k it es)"

text \<open>\<open>node.put\<close>: overwrite the entry of an existing key, else insert in key order.\<close>

definition upsert :: "bytes \<Rightarrow> item \<Rightarrow> bucket \<Rightarrow> bucket" where
  "upsert k it b =
     (case lookup k b of
        None \<Rightarrow> Bkt (insert_entry k it (entries b))
      | Some _ \<Rightarrow> Bkt (replace_entry k it (entries b)))"

fun get_bucket :: "bucket \<Rightarrow> handle \<Rightarrow> bucket option" where
  "get_bucket b [] = Some b"
| "get_bucket b (n # ns) =
     (case lookup n b of Some (Sub c) \<Rightarrow> get_bucket c ns | _ \<Rightarrow> None)"

fun set_bucket :: "bucket \<Rightarrow> handle \<Rightarrow> bucket \<Rightarrow> bucket" where
  "set_bucket b [] c = c"
| "set_bucket b (n # ns) c =
     (case lookup n b of
        Some (Sub d) \<Rightarrow> Bkt (replace_entry n (Sub (set_bucket d ns c)) (entries b))
      | _ \<Rightarrow> b)"

definition MaxKeySize :: nat where
  "MaxKeySize = 32768"

definition MaxValueSize :: nat where
  "MaxValueSize = 2 ^ 31 - 2"

text \<open>
  \<open>Tx.Bucket(name)\<close> and \<open>Bucket.Bucket(name)\<close>: the handle of a nested bucket, \<open>nil\<close>
  (here \<open>None\<close>) when the name is absent or names a leaf.
\<close>

definition Bucket :: "handle \<Rightarrow> bytes \<Rightarrow> bucket \<Rightarrow> handle option" where
  "Bucket h name tx =
     (case get_bucket tx (h @ [name]) of None \<Rightarrow> None | Some _ \<Rightarrow> Some (h @ [name]))"

text \<open>
  \<open>Bucket.CreateBucketIfNotExists(name)\<close>, on the contents of the receiving bucket:
  the name must not be empty; an existing nested bucket is kept as it is, an existing
  leaf under that name is refused, and otherwise an empty bucket is inserted.
\<close>

definition create_nested :: "bytes \<Rightarrow> bucket \<Rightarrow> error + bucket" where
  "create_nested name b =
     (if length name = 0 then Inl ErrBucketNameRequired
      else (case lookup name b of
              Some (Sub _) \<Rightarrow> Inr b
            | Some (Leaf _) \<Rightarrow> Inl ErrIncompatibleValue
            | None \<Rightarrow> Inr (upsert name (Sub (Bkt [])) b)))"

text \<open>
  \<open>Bucket.Put(key, value)\<close>, on the contents of the receiving bucket; a \<open>nil\<close> value
  is stored as the empty value.
\<close>

definition put_leaf :: "bytes \<Rightarrow> bytes \<Rightarrow> bucket \<Rightarrow> error + bucket" where
  "put_leaf key val b =
     (if length key = 0 then Inl ErrKeyRequired
      else if length key > MaxKeySize then Inl ErrKeyTooLarge
      else if length val > MaxValueSize then Inl ErrValueTooLarge
      else (case lookup key b of
              Some (Sub _) \<Rightarrow> Inl ErrIncompatibleValue
            | _ \<Rightarrow> Inr (upsert key (Leaf val) b)))"

text \<open>
  The same two calls through a handle \<open>h\<close> (\<open>[]\<close> for the transaction itself), on the
  whole transaction. A handle that names no bucket cannot arise, since nothing is ever
  deleted; the model makes that case a panic.
\<close>

definition CreateBucketIfNotExists ::
  "handle \<Rightarrow> bytes \<Rightarrow> bucket \<Rightarrow> failure + (handle \<times> bucket)" where
  "CreateBucketIfNotExists h name tx =
     (case get_bucket tx h of
        None \<Rightarrow> Inl Panicked
      | Some b \<Rightarrow>
          (case create_nested name b of
             Inl err \<Rightarrow> Inl (Returned err)
           | Inr b' \<Rightarrow> Inr (h @ [name], set_bucket tx h b')))"

definition Put :: "handle \<Rightarrow> bytes \<Rightarrow> bytes \<Rightarrow> bucket \<Rightarrow> failure + bucket" where
  "Put h key val tx =
     (case get_bucket tx h of
        None \<Rightarrow> Inl Panicked
      | Some b \<Rightarrow>
          (case put_leaf key val b of
             Inl err \<Rightarrow> Inl (Returned err)
           | Inr b' \<Rightarrow> Inr (set_bucket tx h b')))"

text \<open>
  \<open>Bucket.ForEach(fn)\<close>: the visitor is called on every entry in key order, with \<open>nil\<close>
  as the value of a nested bucket, and the first failure ends the scan. The visitors of
  this file write either into another bucket or over the value of the key being visited,
  so the keys and values the cursor meets are those the bucket had when the scan began.
\<close>

fun item_value :: "item \<Rightarrow> bytes option" where
  "item_value (Leaf v) = Some v"
| "item_value (Sub b) = None"

fun forEach_loop ::
  "(bytes \<Rightarrow> bytes option \<Rightarrow> bucket \<Rightarrow> failure + bucket) \<Rightarrow>
   (bytes \<times> item) list \<Rightarrow> bucket \<Rightarrow> failure + bucket" where
  "forEach_loop fn [] tx = Inr tx"
| "forEach_loop fn ((k, it) # es) tx =
     (case fn k (item_value it) tx of
        Inl f \<Rightarrow> Inl f
      | Inr tx' \<Rightarrow> forEach_loop fn es tx')"

definition ForEach ::
  "handle \<Rightarrow> (bytes \<Rightarrow> bytes option \<Rightarrow> bucket \<Rightarrow> failure + bucket) \<Rightarrow>
   bucket \<Rightarrow> failure + bucket" where
  "ForEach h fn tx =
     (case get_bucket tx h of
        None \<Rightarrow> Inl Panicked
      | Some b \<Rightarrow> forEach_loop fn (entries b) tx)"

section \<open>What the migrations take from the rest of the package\<close>

text \<open>
  The bucket names and the version numbers are package constants declared outside this
  file, so they are parameters here. Version numbers are Go constants, whose arithmetic
  is exact: they are integers.
\<close>

record constants =
  nodeBucket :: bytes
  nodeUpdateIndexBucket :: bytes
  edgeBucket :: bytes
  edgeUpdateIndexBucket :: bytes
  paymentBucket :: bytes
  invoiceBucket :: bytes
  forwardingLogBucket :: bytes
  nodeAndEdgeUpdateIndexVersion :: int
  invoiceWithChannelPointVersion :: int
  forwardEventWithType :: int

text \<open>
  Of a decoded edge policy the migration reads \<open>ChannelID\<close> (for the log only) and
  \<open>LastUpdate.Unix()\<close>, an \<open>int64\<close>; the other fields are the record's extension.
  \<open>uint64(x)\<close> keeps the 64 bits of \<open>x\<close>.
\<close>

record ChannelEdgePolicy =
  ChannelID :: "64 word"
  LastUpdate_Unix :: int

definition uint64 :: "int \<Rightarrow> 64 word" where
  "uint64 x = word_of_int x"

text \<open>
  Of a forwarding event the migration writes the field \<open>Type\<close>; its type and the
  constant \<open>SuccessForward\<close> are declared outside this file and are parameters.
\<close>

record 't ForwardingEvent =
  Type :: 't

text \<open>
  The codecs are parameters as well: a decoder maps the bytes behind its reader (and its
  version, or the node bucket it consults) to an error or a record, an encoder maps a
  record to an error or the bytes it wrote.
\<close>

section \<open>migrateNodeAndEdgeUpdateIndex\<close>

text \<open>The visitor of the node bucket (the closure passed to \<open>nodes.ForEach\<close>).\<close>

definition nodeVisitor ::
  "handle \<Rightarrow> bytes \<Rightarrow> bytes option \<Rightarrow> bucket \<Rightarrow> failure + bucket" where
  "nodeVisitor nodeUpdateIndex nodePub nodeInfo tx =
     (if length nodePub \<noteq> 33 then Inr tx
      else (case slice_to nodeInfo 8 of
              None \<Rightarrow> Inl Panicked
            | Some updateTime \<Rightarrow>
                let indexKey = replicate (8 + 33) 0;
                    indexKey = copy_into indexKey 0 8 updateTime;
                    indexKey = copy_into indexKey 8 (8 + 33) nodePub
                in Put nodeUpdateIndex indexKey [] tx))"

text \<open>
  The visitor of the edge bucket (the closure passed to \<open>edges.ForEach\<close>). The
  decoder is given the handle \<open>nodes\<close>; the model gives it what the node bucket holds at
  that moment.
\<close>

definition edgeVisitor ::
  "(bytes \<Rightarrow> bucket \<Rightarrow> error + 'p ChannelEdgePolicy_scheme) \<Rightarrow>
   handle \<Rightarrow> handle \<Rightarrow> bytes \<Rightarrow> bytes option \<Rightarrow> bucket \<Rightarrow> failure + bucket" where
  "edgeVisitor deserializeChanEdgePolicy nodes edgeUpdateIndex edgeKey edgePolicyBytes tx =
     (if length edgeKey \<noteq> 41 then Inr tx
      else
        let chanID = drop 33 edgeKey;
            edgePolicyReader = NewReader edgePolicyBytes
        in (case get_bucket tx nodes of
              None \<Rightarrow> Inl Panicked
            | Some nodesNow \<Rightarrow>
                (case deserializeChanEdgePolicy edgePolicyReader nodesNow of
                   Inl err \<Rightarrow> Inl (Returned err)
                 | Inr edgePolicy \<Rightarrow>
                     let indexKey = replicate (8 + 8) 0;
                         indexKey = copy_into indexKey 0 8
                                      (PutUint64 (uint64 (LastUpdate_Unix edgePolicy)));
                         indexKey = copy_into indexKey 8 (8 + 8) chanID
                     in Put edgeUpdateIndex indexKey [] tx)))"

definition migrateNodeAndEdgeUpdateIndex ::
  "constants \<Rightarrow> (bytes \<Rightarrow> bucket \<Rightarrow> error + 'p ChannelEdgePolicy_scheme) \<Rightarrow>
   bucket \<Rightarrow> failure + bucket" where
  "migrateNodeAndEdgeUpdateIndex c deserializeChanEdgePolicy tx =
     (case CreateBucketIfNotExists [] (nodeBucket c) tx of
        Inl err \<Rightarrow> Inl (wrap ''unable to create node bucket: %v'' err)
      | Inr (nodes, tx) \<Rightarrow>
     (case CreateBucketIfNotExists nodes (nodeUpdateIndexBucket c) tx of
        Inl err \<Rightarrow> Inl (wrap ''unable to create node update index: %v'' err)
      | Inr (nodeUpdateIndex, tx) \<Rightarrow>
     (case ForEach nodes (nodeVisitor nodeUpdateIndex) tx of
        Inl err \<Rightarrow> Inl (wrap ''unable to update node indexes: %v'' err)
      | Inr tx \<Rightarrow>
     (case CreateBucketIfNotExists [] (edgeBucket c) tx of
        Inl err \<Rightarrow> Inl (wrap ''unable to create edge bucket: %v'' err)
      | Inr (edges, tx) \<Rightarrow>
     (case CreateBucketIfNotExists edges (edgeUpdateIndexBucket c) tx of
        Inl err \<Rightarrow> Inl (wrap ''unable to create edge update index: %v'' err)
      | Inr (edgeUpdateIndex, tx) \<Rightarrow>
     (case ForEach edges (edgeVisitor deserializeChanEdgePolicy nodes edgeUpdateIndex) tx of
        Inl err \<Rightarrow> Inl (wrap ''unable to update edge indexes: %v'' err)
      | Inr tx \<Rightarrow> Inr tx))))))"

section \<open>migrateAddInvoiceWithChannelPoint\<close>

text \<open>
  The two visitors have the same shape: skip a \<open>nil\<close> value, decode with the version
  \<open>nodeAndEdgeUpdateIndexVersion\<close>, encode with \<open>invoiceWithChannelPointVersion\<close>, and
  put the new bytes under the key being visited.
\<close>

definition paymentVisitor ::
  "constants \<Rightarrow> (bytes \<Rightarrow> int \<Rightarrow> error + 'pay) \<Rightarrow> ('pay \<Rightarrow> int \<Rightarrow> error + bytes) \<Rightarrow>
   handle \<Rightarrow> bytes \<Rightarrow> bytes option \<Rightarrow> bucket \<Rightarrow> failure + bucket" where
  "paymentVisitor c deserializeOutgoingPayment serializeOutgoingPayment
       paymentsBucket paymentKey paymentData tx =
     (case paymentData of
        None \<Rightarrow> Inr tx
      | Some r \<Rightarrow>
          (case deserializeOutgoingPayment r (nodeAndEdgeUpdateIndexVersion c) of
             Inl err \<Rightarrow> Inl (Returned err)
           | Inr payment \<Rightarrow>
               (case serializeOutgoingPayment payment (invoiceWithChannelPointVersion c) of
                  Inl err \<Rightarrow> Inl (Returned err)
                | Inr b \<Rightarrow> Put paymentsBucket paymentKey b tx)))"

definition invoiceVisitor ::
  "constants \<Rightarrow> (bytes \<Rightarrow> int \<Rightarrow> error + 'inv) \<Rightarrow> ('inv \<Rightarrow> int \<Rightarrow> error + bytes) \<Rightarrow>
   handle \<Rightarrow> bytes \<Rightarrow> bytes option \<Rightarrow> bucket \<Rightarrow> failure + bucket" where
  "invoiceVisitor c deserializeInvoice serializeInvoice
       invoiceBucketH invoiceKey invoiceData tx =
     (case invoiceData of
        None \<Rightarrow> Inr tx
      | Some invoiceReader \<Rightarrow>
          (case deserializeInvoice invoiceReader (nodeAndEdgeUpdateIndexVersion c) of
             Inl err \<Rightarrow> Inl (Returned err)
           | Inr invoice \<Rightarrow>
               (case serializeInvoice invoice (invoiceWithChannelPointVersion c) of
                  Inl err \<Rightarrow> Inl (Returned err)
                | Inr b \<Rightarrow> Put invoiceBucketH invoiceKey b tx)))"

definition migrateAddInvoiceWithChannelPoint ::
  "constants \<Rightarrow> (bytes \<Rightarrow> int \<Rightarrow> error + 'pay) \<Rightarrow> ('pay \<Rightarrow> int \<Rightarrow> error + bytes) \<Rightarrow>
   (bytes \<Rightarrow> int \<Rightarrow> error + 'inv) \<Rightarrow> ('inv \<Rightarrow> int \<Rightarrow> error + bytes) \<Rightarrow>
   bucket \<Rightarrow> failure + bucket" where
  "migrateAddInvoiceWithChannelPoint c deserializeOutgoingPayment serializeOutgoingPayment
       deserializeInvoice serializeInvoice tx =
     (case (case Bucket [] (paymentBucket c) tx of
              None \<Rightarrow> Inr tx
            | Some paymentsBucket \<Rightarrow>
                ForEach paymentsBucket
                  (paymentVisitor c deserializeOutgoingPayment serializeOutgoingPayment
                     paymentsBucket) tx) of
        Inl err \<Rightarrow> Inl err
      | Inr tx \<Rightarrow>
          (case Bucket [] (invoiceBucket c) tx of
             None \<Rightarrow> Inr tx
           | Some invoiceBucketH \<Rightarrow>
               ForEach invoiceBucketH
                 (invoiceVisitor c deserializeInvoice serializeInvoice invoiceBucketH) tx))"

section \<open>migrateAddTypeToForwardEvent\<close>

definition forwardVisitor ::
  "constants \<Rightarrow> 't \<Rightarrow> (bytes \<Rightarrow> int \<Rightarrow> error + ('t, 'm) ForwardingEvent_scheme) \<Rightarrow>
   (('t, 'm) ForwardingEvent_scheme \<Rightarrow> int \<Rightarrow> error + bytes) \<Rightarrow>
   handle \<Rightarrow> bytes \<Rightarrow> bytes option \<Rightarrow> bucket \<Rightarrow> failure + bucket" where
  "forwardVisitor c SuccessForward decodeForwardingEvent encodeForwardingEvent
       logBucket logTime logData tx =
     (let r = NewReader logData
      in (case decodeForwardingEvent r (forwardEventWithType c - 1) of
            Inl err \<Rightarrow> Inl (Returned err)
          | Inr event \<Rightarrow>
              let event = event\<lparr>Type := SuccessForward\<rparr>
              in (case encodeForwardingEvent event (forwardEventWithType c) of
                    Inl err \<Rightarrow> Inl (Returned err)
                  | Inr eventBuf \<Rightarrow> Put logBucket logTime eventBuf tx)))"

definition migrateAddTypeToForwardEvent ::
  "constants \<Rightarrow> 't \<Rightarrow> (bytes \<Rightarrow> int \<Rightarrow> error + ('t, 'm) ForwardingEvent_scheme) \<Rightarrow>
   (('t, 'm) ForwardingEvent_scheme \<Rightarrow> int \<Rightarrow> error + bytes) \<Rightarrow>
   bucket \<Rightarrow> failure + bucket" where
  "migrateAddTypeToForwardEvent c SuccessForward decodeForwardingEvent
       encodeForwardingEvent tx =
     (case Bucket [] (forwardingLogBucket c) tx of
        Some logBucket \<Rightarrow>
          ForEach logBucket
            (forwardVisitor c SuccessForward decodeForwardingEvent encodeForwardingEvent
               logBucket) tx
      | None \<Rightarrow> Inr tx)"

section \<open>Notions used to state and prove the properties\<close>

text \<open>
  The number that a byte string denotes when read big-endian (what
  \<open>byteOrder.Uint64\<close> returns on eight bytes), and the \<open>k\<close> big-endian digits of a
  number.
\<close>

fun be_value :: "bytes \<Rightarrow> nat" where
  "be_value [] = 0"
| "be_value (x # xs) = unat x * 256 ^ length xs + be_value xs"

fun be_digits :: "nat \<Rightarrow> nat \<Rightarrow> bytes" where
  "be_digits 0 n = []"
| "be_digits (Suc k) n = of_nat (n div 256 ^ k mod 256) # be_digits k n"

text \<open>
  A scan whose visitor, on each entry, skips, fails, or puts one key and value into one
  fixed bucket, seen on the contents of that bucket alone.
\<close>

fun write_loop ::
  "(bytes \<Rightarrow> bytes option \<Rightarrow> (failure + bytes \<times> bytes) option) \<Rightarrow>
   (bytes \<times> item) list \<Rightarrow> bucket \<Rightarrow> failure + bucket" where
  "write_loop g [] b = Inr b"
| "write_loop g ((k, it) # es) b =
     (case g k (item_value it) of
        None \<Rightarrow> write_loop g es b
      | Some (Inl f) \<Rightarrow> Inl f
      | Some (Inr (k', v')) \<Rightarrow>
          (case put_leaf k' v' b of
             Inl err \<Rightarrow> Inl (Returned err)
           | Inr b' \<Rightarrow> write_loop g es b'))"

text \<open>Keys are unique within a bucket: the invariant of the store's buckets.\<close>

definition unique_keys :: "bucket \<Rightarrow> bool" where
  "unique_keys b = distinct (map fst (entries b))"

text \<open>
  Re-encoding a record in the specification's words: decode with the prior version,
  encode with the new one. \<open>reencode_step\<close> is what that means for one visited entry
  (a \<open>nil\<close> value is skipped, a failure is returned, the new bytes go under the same
  key), and \<open>reencoded\<close> relates an entry before the migration to the entry after it:
  the same key; a nested bucket as it was; a leaf holding the re-encoded record.
\<close>

definition reencode ::
  "constants \<Rightarrow> (bytes \<Rightarrow> int \<Rightarrow> error + 'r) \<Rightarrow> ('r \<Rightarrow> int \<Rightarrow> error + bytes) \<Rightarrow>
   bytes \<Rightarrow> error + bytes" where
  "reencode c decode encode r =
     (case decode r (nodeAndEdgeUpdateIndexVersion c) of
        Inl err \<Rightarrow> Inl err
      | Inr x \<Rightarrow> encode x (invoiceWithChannelPointVersion c))"

definition reencode_step ::
  "constants \<Rightarrow> (bytes \<Rightarrow> int \<Rightarrow> error + 'r) \<Rightarrow> ('r \<Rightarrow> int \<Rightarrow> error + bytes) \<Rightarrow>
   bytes \<Rightarrow> bytes option \<Rightarrow> (failure + bytes \<times> bytes) option" where
  "reencode_step c decode encode k v =
     (case v of
        None \<Rightarrow> None
      | Some r \<Rightarrow>
          (case reencode c decode encode r of
             Inl err \<Rightarrow> Some (Inl (Returned err))
           | Inr out \<Rightarrow> Some (Inr (k, out))))"

definition reencoded ::
  "constants \<Rightarrow> (bytes \<Rightarrow> int \<Rightarrow> error + 'r) \<Rightarrow> ('r \<Rightarrow> int \<Rightarrow> error + bytes) \<Rightarrow>
   bytes \<times> item \<Rightarrow> bytes \<times> item \<Rightarrow> bool" where
  "reencoded c decode encode e e' =
     (fst e' = fst e \<and>
      (case snd e of
         Sub s \<Rightarrow> snd e' = Sub s
       | Leaf v \<Rightarrow>
           (case reencode c decode encode v of
              Inl err \<Rightarrow> False
            | Inr out \<Rightarrow> snd e' = Leaf out)))"

text \<open>
  Backfilling the type of a forwarding event in the specification's words: decode with
  the version before \<open>forwardEventWithType\<close>, set the type to \<open>SuccessForward\<close>, encode
  with \<open>forwardEventWithType\<close>. \<open>backfill_step\<close> and \<open>backfilled\<close> are as above,
  except that no entry is skipped, so that a nested bucket cannot have gone through.
\<close>

definition backfill ::
  "constants \<Rightarrow> 't \<Rightarrow> (bytes \<Rightarrow> int \<Rightarrow> error + ('t, 'm) ForwardingEvent_scheme) \<Rightarrow>
   (('t, 'm) ForwardingEvent_scheme \<Rightarrow> int \<Rightarrow> error + bytes) \<Rightarrow> bytes \<Rightarrow> error + bytes" where
  "backfill c SuccessForward decode encode r =
     (case decode r (forwardEventWithType c - 1) of
        Inl err \<Rightarrow> Inl err
      | Inr event \<Rightarrow> encode (event\<lparr>Type := SuccessForward\<rparr>) (forwardEventWithType c))"

definition backfill_step ::
  "constants \<Rightarrow> 't \<Rightarrow> (bytes \<Rightarrow> int \<Rightarrow> error + ('t, 'm) ForwardingEvent_scheme) \<Rightarrow>
   (('t, 'm) ForwardingEvent_scheme \<Rightarrow> int \<Rightarrow> error + bytes) \<Rightarrow>
   bytes \<Rightarrow> bytes option \<Rightarrow> (failure + bytes \<times> bytes) option" where
  "backfill_step c SuccessForward decode encode k v =
     (case backfill c SuccessForward decode encode (NewReader v) of
        Inl err \<Rightarrow> Some (Inl (Returned err))
      | Inr out \<Rightarrow> Some (Inr (k, out)))"

definition backfilled ::
  "constants \<Rightarrow> 't \<Rightarrow> (bytes \<Rightarrow> int \<Rightarrow> error + ('t, 'm) ForwardingEvent_scheme) \<Rightarrow>
   (('t, 'm) ForwardingEvent_scheme \<Rightarrow> int \<Rightarrow> error + bytes) \<Rightarrow>
   bytes \<times> item \<Rightarrow> bytes \<times> item \<Rightarrow> bool" where
  "backfilled c SuccessForward decode encode e e' =
     (fst e' = fst e \<and>
      (case snd e of
         Sub s \<Rightarrow> False
       | Leaf v \<Rightarrow>
           (case backfill c SuccessForward decode encode v of
              Inl err \<Rightarrow> False
            | Inr out \<Rightarrow> snd e' = Leaf out)))"

text \<open>
  What a scan that puts under the key being visited leaves of one entry, and when it
  goes through on an entry.
\<close>

definition rewritten ::
  "(bytes \<Rightarrow> bytes option \<Rightarrow> (failure + bytes \<times> bytes) option) \<Rightarrow>
   bytes \<times> item \<Rightarrow> bytes \<times> item \<Rightarrow> bool" where
  "rewritten g e e' =
     (fst e' = fst e \<and>
      (case g (fst e) (item_value (snd e)) of
         None \<Rightarrow> snd e' = snd e
       | Some (Inl f) \<Rightarrow> False
       | Some (Inr (k', v')) \<Rightarrow> (\<exists>v. snd e = Leaf v) \<and> snd e' = Leaf v'))"

definition in_place :: "(bytes \<Rightarrow> bytes option \<Rightarrow> (failure + bytes \<times> bytes) option) \<Rightarrow> bool" where
  "in_place g = (\<forall>k v k' v'. g k v = Some (Inr (k', v')) \<longrightarrow> k' = k)"

definition entry_ok ::
  "(bytes \<Rightarrow> bytes option \<Rightarrow> (failure + bytes \<times> bytes) option) \<Rightarrow> bytes \<times> item \<Rightarrow> bool" where
  "entry_ok g e =
     (case g (fst e) (item_value (snd e)) of
        None \<Rightarrow> True
      | Some (Inl f) \<Rightarrow> False
      | Some (Inr (k', v')) \<Rightarrow>
          fst e \<noteq> [] \<and> length (fst e) \<le> MaxKeySize \<and> length v' \<le> MaxValueSize \<and>
          (\<exists>w. snd e = Leaf w))"

text \<open>
  An entry whose re-encoding goes through: a nested bucket, or a leaf under a key the
  store accepts whose record decodes and encodes, to a value the store accepts.
\<close>

definition reencodable ::
  "constants \<Rightarrow> (bytes \<Rightarrow> int \<Rightarrow> error + 'r) \<Rightarrow> ('r \<Rightarrow> int \<Rightarrow> error + bytes) \<Rightarrow>
   bytes \<times> item \<Rightarrow> bool" where
  "reencodable c decode encode e =
     (case snd e of
        Sub s \<Rightarrow> True
      | Leaf v \<Rightarrow>
          fst e \<noteq> [] \<and> length (fst e) \<le> MaxKeySize \<and>
          (case reencode c decode encode v of
             Inl err \<Rightarrow> False
           | Inr out \<Rightarrow> length out \<le> MaxValueSize))"

text \<open>
  What the node visitor and the edge visitor do with one entry: skip it, fail, or put
  one key with the empty value into the index. The edge visitor decodes against the
  contents of the node bucket.
\<close>

definition node_step :: "bytes \<Rightarrow> bytes option \<Rightarrow> (failure + bytes \<times> bytes) option" where
  "node_step nodePub nodeInfo =
     (if length nodePub \<noteq> 33 then None
      else (case slice_to nodeInfo 8 of
              None \<Rightarrow> Some (Inl Panicked)
            | Some updateTime \<Rightarrow>
                Some (Inr (copy_into (copy_into (replicate (8 + 33) 0) 0 8 updateTime)
                             8 (8 + 33) nodePub, []))))"

definition edge_step ::
  "(bytes \<Rightarrow> bucket \<Rightarrow> error + 'p ChannelEdgePolicy_scheme) \<Rightarrow> bucket \<Rightarrow>
   bytes \<Rightarrow> bytes option \<Rightarrow> (failure + bytes \<times> bytes) option" where
  "edge_step deserializeChanEdgePolicy nodesNow edgeKey edgePolicyBytes =
     (if length edgeKey \<noteq> 41 then None
      else (case deserializeChanEdgePolicy (NewReader edgePolicyBytes) nodesNow of
              Inl err \<Rightarrow> Some (Inl (Returned err))
            | Inr edgePolicy \<Rightarrow>
                Some (Inr (copy_into
                             (copy_into (replicate (8 + 8) 0) 0 8
                                (PutUint64 (uint64 (LastUpdate_Unix edgePolicy))))
                             8 (8 + 8) (drop 33 edgeKey), []))))"

text \<open>A scan all of whose puts carry the same value.\<close>

definition writes_value ::
  "(bytes \<Rightarrow> bytes option \<Rightarrow> (failure + bytes \<times> bytes) option) \<Rightarrow> bytes \<Rightarrow> bool" where
  "writes_value g c = (\<forall>k v k' v'. g k v = Some (Inr (k', v')) \<longrightarrow> v' = c)"


section \<open>Example data\<close>

text \<open>
  Constants and codecs for the concrete instances below: a decoder that fails on an
  empty reader, and encoders that append the new field.
\<close>

definition ex_constants :: constants where
  "ex_constants =
     \<lparr>nodeBucket = [1], nodeUpdateIndexBucket = [2], edgeBucket = [3],
      edgeUpdateIndexBucket = [4], paymentBucket = [5], invoiceBucket = [6],
      forwardingLogBucket = [7], nodeAndEdgeUpdateIndexVersion = 1,
      invoiceWithChannelPointVersion = 2, forwardEventWithType = 3\<rparr>"

definition ex_decode :: "bytes \<Rightarrow> int \<Rightarrow> error + bytes" where
  "ex_decode r ver = (if r = [] then Inl (CodecError ''EOF'') else Inr r)"

definition ex_encode :: "bytes \<Rightarrow> int \<Rightarrow> error + bytes" where
  "ex_encode x ver = (if ver = 2 then Inr (x @ [0]) else Inr x)"

record ex_event = "nat ForwardingEvent" +
  payload :: bytes

definition ex_decodeEvent :: "bytes \<Rightarrow> int \<Rightarrow> error + ex_event" where
  "ex_decodeEvent r ver =
     (if r = [] then Inl (CodecError ''EOF'') else Inr \<lparr>Type = 0, payload = r\<rparr>)"

definition ex_encodeEvent :: "ex_event \<Rightarrow> int \<Rightarrow> error + bytes" where
  "ex_encodeEvent ev ver = Inr (payload ev @ [of_nat (Type ev)])"

definition ex_decodePolicy :: "bytes \<Rightarrow> bucket \<Rightarrow> error + ChannelEdgePolicy" where
  "ex_decodePolicy r nodes =
     (case r of
        [] \<Rightarrow> Inl (CodecError ''EOF'')
      | x # _ \<Rightarrow> Inr \<lparr>ChannelID = 0, LastUpdate_Unix = uint x\<rparr>)"

definition ex_nodePub :: bytes where
  "ex_nodePub =
    [2, 0, 0, 0, 0, 0, 0, 0, 0, 0, 0, 0, 0, 0, 0, 0, 0, 0, 0, 0, 0, 0, 0, 0, 0, 0, 0,
     0, 0, 0, 0, 0, 0]"

definition ex_edgeKey :: bytes where
  "ex_edgeKey =
    [2, 0, 0, 0, 0, 0, 0, 0, 0, 0, 0, 0, 0, 0, 0, 0, 0, 0, 0, 0, 0, 0, 0, 0, 0, 0, 0,
     0, 0, 0, 0, 0, 0, 0, 0, 0, 0, 0, 0, 0, 5]"

definition ex_nodeIndexKey :: bytes where
  "ex_nodeIndexKey =
    [0, 0, 0, 0, 0, 0, 3, 232, 2, 0, 0, 0, 0, 0, 0, 0, 0, 0, 0, 0, 0, 0, 0, 0, 0, 0, 0,
     0, 0, 0, 0, 0, 0, 0, 0, 0, 0, 0, 0, 0, 0]"

definition ex_graph :: bucket where
  "ex_graph =
     Bkt [([1], Sub (Bkt [(ex_nodePub, Leaf [0, 0, 0, 0, 0, 0, 3, 232, 9, 9])])),
          ([3], Sub (Bkt [(ex_edgeKey, Leaf [1])]))]"

definition ex_graph_migrated :: bucket where
  "ex_graph_migrated =
     Bkt [([1], Sub (Bkt [([2], Sub (Bkt [(ex_nodeIndexKey, Leaf [])])),
                          (ex_nodePub, Leaf [0, 0, 0, 0, 0, 0, 3, 232, 9, 9])])),
          ([3], Sub (Bkt [(ex_edgeKey, Leaf [1]),
                          ([4], Sub (Bkt [([0, 0, 0, 0, 0, 0, 0, 1, 0, 0, 0, 0, 0, 0, 0, 5],
                                           Leaf [])]))]))]"

section \<open>Facts about the store\<close>

lemma map_of_replace_entry:
  "map_of (replace_entry k it es) k' =
     (if k' = k \<and> map_of es k \<noteq> None then Some it else map_of es k')"
  by (induction es) auto

lemma map_of_insert_entry:
  "map_of es k = None \<Longrightarrow>
   map_of (insert_entry k it es) k' = (if k' = k then Some it else map_of es k')"
  by (induction es) (auto split: if_splits)

lemma lookup_upsert:
  "lookup k' (upsert k it b) = (if k' = k then Some it else lookup k' b)"
  by (cases "lookup k b")
     (auto simp: lookup_def upsert_def map_of_replace_entry map_of_insert_entry)

lemma keys_replace_entry: "map fst (replace_entry k it es) = map fst es"
  by (induction es) auto

lemma set_insert_entry: "set (insert_entry k it es) = insert (k, it) (set es)"
  by (induction es) (auto split: if_splits)

lemma distinct_insert_entry:
  "k \<notin> fst ` set es \<Longrightarrow> distinct (map fst es) \<Longrightarrow>
   distinct (map fst (insert_entry k it es))"
  by (induction es) (auto simp: set_insert_entry)

lemma distinct_upsert:
  assumes "distinct (map fst (entries b))"
  shows "distinct (map fst (entries (upsert k it b)))"
proof (cases "map_of (entries b) k")
  case None
  then have "k \<notin> fst ` set (entries b)"
    by (simp add: map_of_eq_None_iff)
  with None assms show ?thesis
    by (simp add: lookup_def upsert_def distinct_insert_entry)
next
  case (Some a)
  with assms show ?thesis
    by (simp add: lookup_def upsert_def keys_replace_entry)
qed

lemma replace_entry_twice:
  "replace_entry k a (replace_entry k b es) = replace_entry k a es"
  by (induction es) auto

lemma replace_entry_same:
  "map_of es k = Some it \<Longrightarrow> replace_entry k it es = es"
  by (induction es) (auto split: if_splits)

lemma get_set_same:
  "get_bucket tx h = Some b \<Longrightarrow> get_bucket (set_bucket tx h c) h = Some c"
proof (induction h arbitrary: tx)
  case Nil
  then show ?case by simp
next
  case (Cons n ns)
  then show ?case
    by (auto simp: lookup_def map_of_replace_entry split: option.splits item.splits)
qed

lemma set_set:
  "get_bucket tx h = Some b \<Longrightarrow> set_bucket (set_bucket tx h c) h d = set_bucket tx h d"
proof (induction h arbitrary: tx)
  case Nil
  then show ?case by simp
next
  case (Cons n ns)
  then show ?case
    by (auto simp: lookup_def map_of_replace_entry replace_entry_twice
             split: option.splits item.splits)
qed

lemma set_get_id:
  "get_bucket tx h = Some b \<Longrightarrow> set_bucket tx h b = tx"
proof (induction h arbitrary: tx)
  case Nil
  then show ?case by simp
next
  case (Cons n ns)
  then show ?case
    by (cases tx) (auto simp: lookup_def replace_entry_same split: option.splits item.splits)
qed

lemma lookup_set_other:
  "n \<noteq> m \<Longrightarrow> lookup n (set_bucket tx (m # p) c) = lookup n tx"
  by (auto simp: lookup_def map_of_replace_entry split: option.splits item.splits)

lemma get_set_other:
  "n \<noteq> m \<Longrightarrow> get_bucket (set_bucket tx (m # p) c) (n # q) = get_bucket tx (n # q)"
  using lookup_set_other [of n m tx p c] by simp

lemma Put_set:
  "get_bucket tx h = Some b0 \<Longrightarrow>
   Put h k v (set_bucket tx h b) =
     (case put_leaf k v b of
        Inl err \<Rightarrow> Inl (Returned err)
      | Inr b' \<Rightarrow> Inr (set_bucket tx h b'))"
  by (simp add: Put_def get_set_same set_set split: sum.splits)

lemma forEach_loop_sim:
  assumes h: "get_bucket tx h = Some b0"
    and fn: "\<And>k v b. fn k v (set_bucket tx h b) =
       (case g k v of
          None \<Rightarrow> Inr (set_bucket tx h b)
        | Some (Inl f) \<Rightarrow> Inl f
        | Some (Inr (k', v')) \<Rightarrow> Put h k' v' (set_bucket tx h b))"
  shows "forEach_loop fn es (set_bucket tx h b) =
     (case write_loop g es b of
        Inl f \<Rightarrow> Inl f
      | Inr b' \<Rightarrow> Inr (set_bucket tx h b'))"
proof (induction es arbitrary: b)
  case Nil
  then show ?case by simp
next
  case (Cons e es)
  obtain k it where e: "e = (k, it)" by (cases e)
  show ?case
    by (simp add: e fn Put_set [OF h] Cons.IH split: option.splits sum.splits prod.splits)
qed

section \<open>Facts about the big-endian encoding\<close>

lemma be_value_bound: "be_value xs < 256 ^ length xs"
proof (induction xs)
  case Nil
  then show ?case by simp
next
  case (Cons x xs)
  define B :: nat where "B = 256 ^ length xs"
  have "unat x \<le> 255"
    using unsigned_less [of x, where ?'a = nat] by simp
  then have "unat x * B \<le> 255 * B"
    by (rule mult_le_mono1)
  moreover have "be_value xs < B"
    using Cons by (simp add: B_def)
  ultimately have "unat x * B + be_value xs < 256 * B"
    by linarith
  then show ?case by (simp add: B_def)
qed

lemma bytes_less_be_value:
  "length xs = length ys \<Longrightarrow> bytes_less xs ys \<longleftrightarrow> be_value xs < be_value ys"
proof (induction xs ys rule: list_induct2)
  case Nil
  then show ?case by simp
next
  case (Cons x xs y ys)
  let ?B = "256 ^ length ys :: nat"
  have bx: "be_value xs < ?B" using be_value_bound [of xs] Cons.hyps by simp
  have by': "be_value ys < ?B" using be_value_bound [of ys] by simp
  consider "x < y" | "x = y" | "y < x" by (meson linorder_less_linear)
  then show ?case
  proof cases
    case 1
    then have "Suc (unat x) \<le> unat y" by (simp add: word_less_nat_alt)
    then have "Suc (unat x) * ?B \<le> unat y * ?B" by (rule mult_le_mono1)
    with bx 1 show ?thesis using Cons.hyps by simp
  next
    case 2
    then show ?thesis using Cons by simp
  next
    case 3
    then have "Suc (unat y) \<le> unat x" by (simp add: word_less_nat_alt)
    then have "Suc (unat y) * ?B \<le> unat x * ?B" by (rule mult_le_mono1)
    with by' 3 show ?thesis using Cons.hyps by auto
  qed
qed

lemma length_be_digits: "length (be_digits k n) = k"
  by (induction k) auto

lemma be_value_be_digits: "be_value (be_digits k n) = n mod 256 ^ k"
proof (induction k)
  case 0
  then show ?case by simp
next
  case (Suc k)
  have "unat (of_nat (n div 256 ^ k mod 256) :: byte) = n div 256 ^ k mod 256"
    by (simp add: unat_of_nat)
  moreover have "n mod (256 ^ k * 256) = 256 ^ k * (n div 256 ^ k mod 256) + n mod 256 ^ k"
    by (rule mod_mult2_eq)
  ultimately show ?case
    using Suc by (simp add: length_be_digits mult.commute)
qed

lemma byte_of_word:
  "(ucast (drop_bit i (v :: 64 word)) :: byte) = of_nat (unat v div 2 ^ i mod 256)"
proof -
  have "unat (ucast (drop_bit i v) :: byte) = unat v div 2 ^ i mod 256"
    unfolding unsigned_ucast_eq unat_drop_bit_eq by (simp add: drop_bit_eq_div take_bit_eq_mod)
  then show ?thesis
    by (simp add: word_unat_eq_iff unat_of_nat)
qed

lemma be_digits_8:
  "be_digits 8 n =
     [of_nat (n div 2 ^ 56 mod 256), of_nat (n div 2 ^ 48 mod 256),
      of_nat (n div 2 ^ 40 mod 256), of_nat (n div 2 ^ 32 mod 256),
      of_nat (n div 2 ^ 24 mod 256), of_nat (n div 2 ^ 16 mod 256),
      of_nat (n div 2 ^ 8 mod 256), of_nat (n div 2 ^ 0 mod 256)]"
proof -
  have "(8 :: nat) = Suc (Suc (Suc (Suc (Suc (Suc (Suc (Suc 0)))))))"
    by simp
  then show ?thesis
    by (simp only: be_digits.simps) simp
qed

lemma PutUint64_be_digits: "PutUint64 v = be_digits 8 (unat v)"
proof -
  have "ucast v = (ucast (drop_bit 0 v) :: byte)" by simp
  then show ?thesis
    unfolding PutUint64_def be_digits_8
    by (simp only: byte_of_word)
qed

lemma be_value_PutUint64: "be_value (PutUint64 v) = unat v"
proof -
  have "unat v < 2 ^ 64" using unsigned_less [of v, where ?'a = nat] by simp
  then show ?thesis
    by (simp add: PutUint64_be_digits be_value_be_digits)
qed

lemma length_PutUint64: "length (PutUint64 v) = 8"
  by (simp add: PutUint64_def)

lemma bytes_less_PutUint64: "bytes_less (PutUint64 a) (PutUint64 b) \<longleftrightarrow> a < b"
  by (simp add: bytes_less_be_value length_PutUint64 be_value_PutUint64 word_less_nat_alt)

lemma PutUint64_inj: "PutUint64 a = PutUint64 b \<longleftrightarrow> a = b"
  by (metis be_value_PutUint64 word_unat_eq_iff)

lemma bytes_less_append:
  "length xs = length ys \<Longrightarrow>
   bytes_less (xs @ a) (ys @ b) \<longleftrightarrow> bytes_less xs ys \<or> (xs = ys \<and> bytes_less a b)"
  by (induction xs ys rule: list_induct2) auto

section \<open>Facts about scans that write in place\<close>

lemma replace_entry_append:
  "k \<notin> fst ` set xs \<Longrightarrow> replace_entry k it (xs @ (k, old) # ys) = xs @ (k, it) # ys"
  by (induction xs) auto

lemma map_of_append_fresh:
  "k \<notin> fst ` set xs \<Longrightarrow> map_of (xs @ (k, it) # ys) k = Some it"
  by (induction xs) auto

lemma put_leaf_in_place:
  assumes "k \<notin> fst ` set xs" "put_leaf k v (Bkt (xs @ (k, it) # ys)) = Inr b'"
  shows "(\<exists>w. it = Leaf w) \<and> b' = Bkt (xs @ (k, Leaf v) # ys)"
proof -
  have l: "lookup k (Bkt (xs @ (k, it) # ys)) = Some it"
    using assms(1) by (simp add: lookup_def map_of_append_fresh del: map_of_append)
  have r: "upsert k (Leaf v) (Bkt (xs @ (k, it) # ys)) = Bkt (xs @ (k, Leaf v) # ys)"
    using assms(1) by (simp add: upsert_def l replace_entry_append)
  from assms(2) l r show ?thesis
    by (cases it) (auto simp: put_leaf_def split: if_splits)
qed

lemma write_loop_in_place:
  assumes "in_place g"
  shows "distinct (map fst (xs @ es @ ys)) \<Longrightarrow>
         write_loop g es (Bkt (xs @ es @ ys)) = Inr b' \<Longrightarrow>
         \<exists>es'. b' = Bkt (xs @ es' @ ys) \<and> list_all2 (rewritten g) es es'"
proof (induction es arbitrary: xs)
  case Nil
  then show ?case by simp
next
  case (Cons e es)
  obtain k it where e: "e = (k, it)" by (cases e)
  from Cons.prems(1) have fresh: "k \<notin> fst ` set xs"
    and d: "distinct (map fst ((xs @ [e]) @ es @ ys))"
    by (auto simp: e)
  show ?case
  proof (cases "g k (item_value it)")
    case None
    with Cons.prems(2) have "write_loop g es (Bkt ((xs @ [e]) @ es @ ys)) = Inr b'"
      by (simp add: e)
    from Cons.IH [OF d this] obtain es' where
      "b' = Bkt ((xs @ [e]) @ es' @ ys)" "list_all2 (rewritten g) es es'" by blast
    moreover from None have "rewritten g e e"
      by (simp add: e rewritten_def)
    ultimately show ?thesis
      by (intro exI [of _ "e # es'"]) simp
  next
    case (Some a)
    show ?thesis
    proof (cases a)
      case (Inl f)
      with Some Cons.prems(2) show ?thesis by (simp add: e)
    next
      case (Inr kv)
      obtain k' v' where kv: "kv = (k', v')" by (cases kv)
      with Some Inr assms have k': "k' = k" by (auto simp: in_place_def)
      from Cons.prems(2) Some Inr kv k' obtain b1 where
        p: "put_leaf k v' (Bkt (xs @ (k, it) # es @ ys)) = Inr b1" and
        w: "write_loop g es b1 = Inr b'"
        by (auto simp: e split: sum.splits)
      from put_leaf_in_place [OF fresh p] obtain w' where
        it: "it = Leaf w'" and b1: "b1 = Bkt (xs @ (k, Leaf v') # es @ ys)" by blast
      have d': "distinct (map fst ((xs @ [(k, Leaf v')]) @ es @ ys))"
        using d by (simp add: e)
      from w b1 have "write_loop g es (Bkt ((xs @ [(k, Leaf v')]) @ es @ ys)) = Inr b'"
        by simp
      from Cons.IH [OF d' this] obtain es' where
        "b' = Bkt ((xs @ [(k, Leaf v')]) @ es' @ ys)" "list_all2 (rewritten g) es es'"
        by blast
      moreover from Some Inr kv k' it have "rewritten g e (k, Leaf v')"
        by (simp add: e rewritten_def)
      ultimately show ?thesis
        by (intro exI [of _ "(k, Leaf v') # es'"]) simp
    qed
  qed
qed


lemma put_leaf_in_place_ok:
  assumes "k \<notin> fst ` set xs" "k \<noteq> []" "length k \<le> MaxKeySize" "length v \<le> MaxValueSize"
  shows "put_leaf k v (Bkt (xs @ (k, Leaf w) # ys)) = Inr (Bkt (xs @ (k, Leaf v) # ys))"
proof -
  have l: "lookup k (Bkt (xs @ (k, Leaf w) # ys)) = Some (Leaf w)"
    using assms(1) by (simp add: lookup_def map_of_append_fresh del: map_of_append)
  have r: "upsert k (Leaf v) (Bkt (xs @ (k, Leaf w) # ys)) = Bkt (xs @ (k, Leaf v) # ys)"
    using assms(1) by (simp add: upsert_def l replace_entry_append)
  from assms(2-) l r show ?thesis
    by (simp add: put_leaf_def)
qed

lemma write_loop_in_place_ok:
  assumes "in_place g"
  shows "distinct (map fst (xs @ es @ ys)) \<Longrightarrow> list_all (entry_ok g) es \<Longrightarrow>
         \<exists>es'. write_loop g es (Bkt (xs @ es @ ys)) = Inr (Bkt (xs @ es' @ ys))"
proof (induction es arbitrary: xs)
  case Nil
  then show ?case by simp
next
  case (Cons e es)
  obtain k it where e: "e = (k, it)" by (cases e)
  from Cons.prems(1) have fresh: "k \<notin> fst ` set xs"
    and d: "distinct (map fst ((xs @ [e]) @ es @ ys))"
    by (auto simp: e)
  from Cons.prems(2) have ok: "entry_ok g e" and oks: "list_all (entry_ok g) es"
    by simp_all
  show ?case
  proof (cases "g k (item_value it)")
    case None
    from Cons.IH [OF d oks] obtain es' where
      "write_loop g es (Bkt ((xs @ [e]) @ es @ ys)) = Inr (Bkt ((xs @ [e]) @ es' @ ys))"
      by blast
    with None show ?thesis
      by (intro exI [of _ "e # es'"]) (simp add: e)
  next
    case (Some a)
    with ok obtain k' v' w where a: "a = Inr (k', v')" and it: "it = Leaf w"
      and sz: "k \<noteq> []" "length k \<le> MaxKeySize" "length v' \<le> MaxValueSize"
      by (cases a) (auto simp: entry_ok_def e)
    with Some assms have k': "k' = k" by (auto simp: in_place_def)
    have p: "put_leaf k v' (Bkt (xs @ (k, Leaf w) # es @ ys))
               = Inr (Bkt (xs @ (k, Leaf v') # es @ ys))"
      by (rule put_leaf_in_place_ok [OF fresh sz])
    have d': "distinct (map fst ((xs @ [(k, Leaf v')]) @ es @ ys))"
      using d by (simp add: e)
    from Cons.IH [OF d' oks] obtain es' where
      "write_loop g es (Bkt ((xs @ [(k, Leaf v')]) @ es @ ys))
         = Inr (Bkt ((xs @ [(k, Leaf v')]) @ es' @ ys))"
      by blast
    with Some a k' it p show ?thesis
      by (intro exI [of _ "(k, Leaf v') # es'"]) (simp add: e)
  qed
qed

lemma write_loop_append:
  "write_loop g (xs @ ys) b =
     (case write_loop g xs b of Inl f \<Rightarrow> Inl f | Inr b' \<Rightarrow> write_loop g ys b')"
  by (induction xs arbitrary: b) (auto split: option.splits sum.splits)

lemma ForEach_sim:
  assumes h: "get_bucket tx h = Some b0" and it: "get_bucket tx hs = Some bs"
    and fn: "\<And>k v b. fn k v (set_bucket tx h b) =
       (case g k v of
          None \<Rightarrow> Inr (set_bucket tx h b)
        | Some (Inl f) \<Rightarrow> Inl f
        | Some (Inr (k', v')) \<Rightarrow> Put h k' v' (set_bucket tx h b))"
  shows "ForEach hs fn tx =
     (case write_loop g (entries bs) b0 of
        Inl f \<Rightarrow> Inl f
      | Inr b' \<Rightarrow> Inr (set_bucket tx h b'))"
  using forEach_loop_sim [of tx h b0 fn g "entries bs" b0, OF h fn]
  by (simp add: ForEach_def it set_get_id [OF h])

lemma paymentVisitor_step:
  "paymentVisitor c decode encode h k v s =
     (case reencode_step c decode encode k v of
        None \<Rightarrow> Inr s
      | Some (Inl f) \<Rightarrow> Inl f
      | Some (Inr (k', v')) \<Rightarrow> Put h k' v' s)"
  by (simp add: paymentVisitor_def reencode_step_def reencode_def split: option.splits sum.splits)

lemma invoiceVisitor_step:
  "invoiceVisitor c decode encode h k v s =
     (case reencode_step c decode encode k v of
        None \<Rightarrow> Inr s
      | Some (Inl f) \<Rightarrow> Inl f
      | Some (Inr (k', v')) \<Rightarrow> Put h k' v' s)"
  by (simp add: invoiceVisitor_def reencode_step_def reencode_def split: option.splits sum.splits)

lemma forwardVisitor_step:
  "forwardVisitor c sf decode encode h k v s =
     (case backfill_step c sf decode encode k v of
        None \<Rightarrow> Inr s
      | Some (Inl f) \<Rightarrow> Inl f
      | Some (Inr (k', v')) \<Rightarrow> Put h k' v' s)"
  by (simp add: forwardVisitor_def backfill_step_def backfill_def split: option.splits sum.splits)

lemma in_place_reencode_step: "in_place (reencode_step c decode encode)"
  by (auto simp: in_place_def reencode_step_def split: option.splits sum.splits)

lemma in_place_backfill_step: "in_place (backfill_step c sf decode encode)"
  by (auto simp: in_place_def backfill_step_def split: option.splits sum.splits)

lemma rewritten_reencode_step:
  "rewritten (reencode_step c decode encode) e e' = reencoded c decode encode e e'"
  by (cases e, cases "snd e")
     (auto simp: rewritten_def reencoded_def reencode_step_def split: sum.splits)

lemma rewritten_backfill_step:
  "rewritten (backfill_step c sf decode encode) e e' = backfilled c sf decode encode e e'"
  by (cases e, cases "snd e")
     (auto simp: rewritten_def backfilled_def backfill_step_def NewReader_def split: sum.splits)

text \<open>A successful in-place scan of a whole bucket, on the transaction.\<close>

lemma ForEach_in_place:
  assumes g: "in_place g" and b: "get_bucket tx h = Some b" and u: "unique_keys b"
    and fn: "\<And>k v s. fn k v s =
       (case g k v of
          None \<Rightarrow> Inr s
        | Some (Inl f) \<Rightarrow> Inl f
        | Some (Inr (k', v')) \<Rightarrow> Put h k' v' s)"
    and ok: "ForEach h fn tx = Inr tx'"
  shows "\<exists>b'. tx' = set_bucket tx h b' \<and> list_all2 (rewritten g) (entries b) (entries b')"
proof -
  from ok ForEach_sim [of tx h b h b fn g, OF b b fn]
  obtain b' where w: "write_loop g (entries b) b = Inr b'" and tx': "tx' = set_bucket tx h b'"
    by (auto split: sum.splits)
  have "b = Bkt ([] @ entries b @ [])" by simp
  with w have "write_loop g (entries b) (Bkt ([] @ entries b @ [])) = Inr b'" by simp
  from write_loop_in_place [OF g _ this] u obtain es' where
    "b' = Bkt ([] @ es' @ [])" "list_all2 (rewritten g) (entries b) es'"
    by (auto simp: unique_keys_def)
  with tx' show ?thesis by auto
qed


text \<open>A scan that stops at the first entry its visitor fails on.\<close>

lemma ForEach_first_failure:
  assumes g: "in_place g" and b: "get_bucket tx h = Some b" and u: "unique_keys b"
    and fn: "\<And>k v s. fn k v s =
       (case g k v of
          None \<Rightarrow> Inr s
        | Some (Inl f) \<Rightarrow> Inl f
        | Some (Inr (k', v')) \<Rightarrow> Put h k' v' s)"
    and es: "entries b = pre @ (k, it) # post"
    and pre: "list_all (entry_ok g) pre"
    and fail: "g k (item_value it) = Some (Inl f)"
  shows "ForEach h fn tx = Inl f"
proof -
  have d: "distinct (map fst ([] @ pre @ (k, it) # post))"
    using u by (simp add: unique_keys_def es)
  have "b = Bkt ([] @ pre @ (k, it) # post)"
    using es by (cases b) simp
  with write_loop_in_place_ok [OF g d pre] obtain b1 where
    "write_loop g pre b = Inr b1" by auto
  then have "write_loop g (entries b) b = Inl f"
    by (simp add: es write_loop_append fail)
  with ForEach_sim [of tx h b h b fn g, OF b b fn] show ?thesis
    by simp
qed

lemma Bucket_root:
  "Bucket [] n tx = (if get_bucket tx [n] = None then None else Some [n])"
  by (simp add: Bucket_def del: get_bucket.simps split: option.splits)


lemmas eval_defs =
  Bucket_def ForEach_def Put_def put_leaf_def lookup_def upsert_def MaxKeySize_def
  MaxValueSize_def NewReader_def CreateBucketIfNotExists_def create_nested_def


lemma pass_in_place:
  assumes g: "in_place g"
    and fn: "\<And>h k v s. fn h k v s =
       (case g k v of
          None \<Rightarrow> Inr s
        | Some (Inl f) \<Rightarrow> Inl f
        | Some (Inr (k', v')) \<Rightarrow> Put h k' v' s)"
    and u: "\<And>b. get_bucket tx [n] = Some b \<Longrightarrow> unique_keys b"
    and ok: "(case Bucket [] n tx of None \<Rightarrow> Inr tx | Some h \<Rightarrow> ForEach h (fn h) tx) = Inr tx1"
  shows "(get_bucket tx [n] = None \<and> tx1 = tx) \<or>
         (\<exists>b b'. get_bucket tx [n] = Some b \<and> tx1 = set_bucket tx [n] b' \<and>
                 list_all2 (rewritten g) (entries b) (entries b'))"
proof (cases "get_bucket tx [n]")
  case None
  with ok show ?thesis
    by (simp add: Bucket_root del: get_bucket.simps)
next
  case (Some b)
  with ok have "ForEach [n] (fn [n]) tx = Inr tx1"
    by (simp add: Bucket_root del: get_bucket.simps)
  from ForEach_in_place [OF g Some u [OF Some] fn this] Some show ?thesis
    by blast
qed

lemma pass_frame:
  assumes "(get_bucket tx [n] = None \<and> tx1 = tx) \<or>
           (\<exists>b b'. get_bucket tx [n] = Some b \<and> tx1 = set_bucket tx [n] b' \<and> P b b')"
    and "m \<noteq> n"
  shows "lookup m tx1 = lookup m tx"
  using assms lookup_set_other [of m n tx "[]"] by auto

lemma pass_result:
  assumes "(get_bucket tx [n] = None \<and> tx1 = tx) \<or>
           (\<exists>b b'. get_bucket tx [n] = Some b \<and> tx1 = set_bucket tx [n] b' \<and> P b b')"
  shows "case get_bucket tx [n] of
           None \<Rightarrow> get_bucket tx1 [n] = None
         | Some b \<Rightarrow> \<exists>b'. get_bucket tx1 [n] = Some b' \<and> P b b'"
  using assms
proof (elim disjE exE conjE)
  assume "get_bucket tx [n] = None" "tx1 = tx"
  then show ?thesis by (simp del: get_bucket.simps)
next
  fix b b'
  assume b: "get_bucket tx [n] = Some b" and "tx1 = set_bucket tx [n] b'" "P b b'"
  with get_set_same [OF b, of b'] show ?thesis
    by (auto simp del: get_bucket.simps set_bucket.simps)
qed

lemma get_bucket_lookup_cong:
  "lookup n tx1 = lookup n tx \<Longrightarrow> get_bucket tx1 (n # p) = get_bucket tx (n # p)"
  by simp


lemma reencodable_entry_ok:
  "reencodable c decode encode e \<Longrightarrow> entry_ok (reencode_step c decode encode) e"
  by (cases e, cases "snd e")
     (auto simp: reencodable_def entry_ok_def reencode_step_def split: sum.splits)

lemma reencodable_all_ok:
  "list_all (reencodable c decode encode) es \<Longrightarrow>
   list_all (entry_ok (reencode_step c decode encode)) es"
  by (induction es) (auto intro: reencodable_entry_ok)

lemma reencode_step_fails:
  "reencode c decode encode v = Inl err \<Longrightarrow>
   reencode_step c decode encode k (item_value (Leaf v)) = Some (Inl (Returned err))"
  by (simp add: reencode_step_def)

lemma pass_succeeds:
  assumes g: "in_place g"
    and fn: "\<And>h k v s. fn h k v s =
       (case g k v of
          None \<Rightarrow> Inr s
        | Some (Inl f) \<Rightarrow> Inl f
        | Some (Inr (k', v')) \<Rightarrow> Put h k' v' s)"
    and ok: "case get_bucket tx [n] of
               None \<Rightarrow> True
             | Some b \<Rightarrow> unique_keys b \<and> list_all (entry_ok g) (entries b)"
  shows "\<exists>tx1. (case Bucket [] n tx of None \<Rightarrow> Inr tx | Some h \<Rightarrow> ForEach h (fn h) tx) = Inr tx1 \<and>
               (\<forall>m. m \<noteq> n \<longrightarrow> lookup m tx1 = lookup m tx)"
proof (cases "get_bucket tx [n]")
  case None
  then show ?thesis
    by (simp add: Bucket_root del: get_bucket.simps)
next
  case (Some b)
  with ok have u: "unique_keys b" and a: "list_all (entry_ok g) (entries b)"
    by simp_all
  have d: "distinct (map fst ([] @ entries b @ []))"
    using u by (simp add: unique_keys_def)
  from write_loop_in_place_ok [OF g d a] obtain es' where
    "write_loop g (entries b) b = Inr (Bkt es')" by auto
  with ForEach_sim [of tx "[n]" b "[n]" b "fn [n]" g, OF Some Some fn]
  have "ForEach [n] (fn [n]) tx = Inr (set_bucket tx [n] (Bkt es'))"
    by simp
  with Some show ?thesis
    using lookup_set_other [of _ n tx "[]" "Bkt es'"]
    by (simp add: Bucket_root del: get_bucket.simps set_bucket.simps)
qed

section \<open>Facts about scans that fill an index\<close>

lemma nodeVisitor_step:
  "nodeVisitor h k v s =
     (case node_step k v of
        None \<Rightarrow> Inr s
      | Some (Inl f) \<Rightarrow> Inl f
      | Some (Inr (k', v')) \<Rightarrow> Put h k' v' s)"
  by (simp add: nodeVisitor_def node_step_def Let_def split: option.splits)

lemma edgeVisitor_step:
  "get_bucket s nodes = Some n \<Longrightarrow>
   edgeVisitor dec nodes h k v s =
     (case edge_step dec n k v of
        None \<Rightarrow> Inr s
      | Some (Inl f) \<Rightarrow> Inl f
      | Some (Inr (k', v')) \<Rightarrow> Put h k' v' s)"
  by (simp add: edgeVisitor_def edge_step_def Let_def split: option.splits sum.splits)

lemma writes_value_node_step: "writes_value node_step []"
  by (auto simp: writes_value_def node_step_def split: if_splits option.splits)

lemma writes_value_edge_step: "writes_value (edge_step dec n) []"
  by (auto simp: writes_value_def edge_step_def split: if_splits sum.splits)

lemma node_step_key:
  assumes "length k = 33" "length v \<ge> 8"
  shows "node_step k (Some v) = Some (Inr (take 8 v @ k, []))"
  using assms by (simp add: node_step_def slice_to_def copy_into_def)

lemma node_step_33:
  assumes "length k = 33" "node_step k (item_value it) \<noteq> Some (Inl Panicked)"
  shows "\<exists>v. it = Leaf v \<and> 8 \<le> length v"
  using assms by (cases it) (auto simp: node_step_def slice_to_def split: if_splits)

lemma edge_step_key:
  assumes "length k = 41" "dec (NewReader v) n = Inr p"
  shows "edge_step dec n k v = Some (Inr (PutUint64 (uint64 (LastUpdate_Unix p)) @ drop 33 k, []))"
  using assms by (simp add: edge_step_def copy_into_def length_PutUint64)

lemma put_leaf_lookup:
  "put_leaf k v b = Inr b' \<Longrightarrow> lookup x b' = (if x = k then Some (Leaf v) else lookup x b)"
  by (auto simp: put_leaf_def lookup_upsert split: if_splits option.splits item.splits)

lemma put_leaf_keeps_leaf:
  "put_leaf k v b = Inr b' \<Longrightarrow> lookup x b = Some (Leaf v) \<Longrightarrow> lookup x b' = Some (Leaf v)"
  by (simp add: put_leaf_lookup)

lemma put_leaf_unique:
  "put_leaf k v b = Inr b' \<Longrightarrow> unique_keys b \<Longrightarrow> unique_keys b'"
  by (auto simp: put_leaf_def unique_keys_def distinct_upsert
           split: if_splits option.splits item.splits)

lemma write_loop_keeps_leaf:
  assumes "writes_value g c"
  shows "write_loop g es b = Inr b' \<Longrightarrow> lookup x b = Some (Leaf c) \<Longrightarrow>
         lookup x b' = Some (Leaf c)"
proof (induction es arbitrary: b)
  case Nil
  then show ?case by simp
next
  case (Cons e es)
  obtain k it where e: "e = (k, it)" by (cases e)
  show ?case
  proof (cases "g k (item_value it)")
    case None
    with Cons show ?thesis by (simp add: e)
  next
    case (Some a)
    with Cons.prems(1) obtain k' v' b1 where a: "a = Inr (k', v')"
      and p: "put_leaf k' v' b = Inr b1" and w: "write_loop g es b1 = Inr b'"
      by (cases a) (auto simp: e split: sum.splits)
    from Some a assms have "v' = c" by (auto simp: writes_value_def)
    with p Cons.prems(2) have "lookup x b1 = Some (Leaf c)"
      by (simp add: put_leaf_keeps_leaf)
    with w show ?thesis by (rule Cons.IH)
  qed
qed

lemma write_loop_writes:
  assumes "writes_value g c"
  shows "write_loop g es b = Inr b' \<Longrightarrow> (k, it) \<in> set es \<Longrightarrow>
         g k (item_value it) = Some (Inr (k', v')) \<Longrightarrow> lookup k' b' = Some (Leaf c)"
proof (induction es arbitrary: b)
  case Nil
  then show ?case by simp
next
  case (Cons e es)
  obtain k0 it0 where e: "e = (k0, it0)" by (cases e)
  from Cons.prems(3) assms have v': "v' = c" by (auto simp: writes_value_def)
  show ?case
  proof (cases "(k, it) = e")
    case True
    with Cons.prems(1,3) obtain b1 where p: "put_leaf k' v' b = Inr b1"
      and w: "write_loop g es b1 = Inr b'"
      by (auto simp: e split: sum.splits)
    from p v' have "lookup k' b1 = Some (Leaf c)" by (simp add: put_leaf_lookup)
    with w show ?thesis by (rule write_loop_keeps_leaf [OF assms])
  next
    case False
    with Cons.prems(2) have m: "(k, it) \<in> set es" by simp
    from Cons.prems(1) obtain b1 where "write_loop g es b1 = Inr b'"
      by (auto simp: e split: option.splits sum.splits)
    from Cons.IH [OF this m Cons.prems(3)] show ?thesis .
  qed
qed

lemma write_loop_no_failure:
  "write_loop g es b = Inr b' \<Longrightarrow> (k, it) \<in> set es \<Longrightarrow> g k (item_value it) \<noteq> Some (Inl f)"
proof (induction es arbitrary: b)
  case Nil
  then show ?case by simp
next
  case (Cons e es)
  obtain k0 it0 where e: "e = (k0, it0)" by (cases e)
  show ?case
  proof (cases "(k, it) = e")
    case True
    with Cons.prems(1) show ?thesis
      by (auto simp: e split: option.splits sum.splits)
  next
    case False
    with Cons.prems(2) have m: "(k, it) \<in> set es" by simp
    from Cons.prems(1) obtain b1 where "write_loop g es b1 = Inr b'"
      by (auto simp: e split: option.splits sum.splits)
    from Cons.IH [OF this m] show ?thesis .
  qed
qed

lemma write_loop_unique:
  "write_loop g es b = Inr b' \<Longrightarrow> unique_keys b \<Longrightarrow> unique_keys b'"
proof (induction es arbitrary: b)
  case Nil
  then show ?case by simp
next
  case (Cons e es)
  obtain k it where e: "e = (k, it)" by (cases e)
  show ?case
  proof (cases "g k (item_value it)")
    case None
    with Cons show ?thesis by (simp add: e)
  next
    case (Some a)
    with Cons.prems(1) obtain k' v' b1 where
      p: "put_leaf k' v' b = Inr b1" and w: "write_loop g es b1 = Inr b'"
      by (cases a) (auto simp: e split: sum.splits)
    from put_leaf_unique [OF p Cons.prems(2)] w show ?thesis by (rule Cons.IH [rotated])
  qed
qed

lemma unique_entry:
  "unique_keys b \<Longrightarrow> lookup x b = Some it \<Longrightarrow>
   filter (\<lambda>e. fst e = x) (entries b) = [(x, it)]"
proof -
  have "distinct (map fst es) \<Longrightarrow> map_of es x = Some it \<Longrightarrow>
        filter (\<lambda>e. fst e = x) es = [(x, it)]" for es
  proof (induction es)
    case Nil
    then show ?case by simp
  next
    case (Cons e es)
    show ?case
    proof (cases "fst e = x")
      case True
      with Cons.prems have "e = (x, it)" and "x \<notin> fst ` set es"
        by (cases e; auto)+
      then have "filter (\<lambda>e. fst e = x) es = []"
        by (auto simp: filter_empty_conv)
      with True \<open>e = (x, it)\<close> show ?thesis by simp
    next
      case False
      with Cons show ?thesis by (cases e) auto
    qed
  qed
  then show "unique_keys b \<Longrightarrow> lookup x b = Some it \<Longrightarrow>
   filter (\<lambda>e. fst e = x) (entries b) = [(x, it)]"
    by (simp add: unique_keys_def lookup_def)
qed

lemma create_nested_Inr:
  assumes "create_nested n b = Inr b1"
  shows "\<exists>s. lookup n b1 = Some (Sub s) \<and>
             (case lookup n b of None \<Rightarrow> s = Bkt [] | Some it \<Rightarrow> it = Sub s)"
    and "\<And>m. m \<noteq> n \<Longrightarrow> lookup m b1 = lookup m b"
    and "set (entries b) \<subseteq> set (entries b1)"
    and "n \<noteq> []"
proof -
  show "\<exists>s. lookup n b1 = Some (Sub s) \<and>
             (case lookup n b of None \<Rightarrow> s = Bkt [] | Some it \<Rightarrow> it = Sub s)"
    using assms
    by (auto simp: create_nested_def lookup_upsert split: if_splits option.splits item.splits)
  show "lookup m b1 = lookup m b" if "m \<noteq> n" for m
    using assms that
    by (auto simp: create_nested_def lookup_upsert split: if_splits option.splits item.splits)
  show "set (entries b) \<subseteq> set (entries b1)"
    using assms
    by (auto simp: create_nested_def upsert_def set_insert_entry
             split: if_splits option.splits item.splits)
  show "n \<noteq> []"
    using assms by (auto simp: create_nested_def split: if_splits)
qed

section \<open>Facts about \<open>migrateNodeAndEdgeUpdateIndex\<close>\<close>

lemma Create_root:
  assumes "CreateBucketIfNotExists [] n tx = Inr (h, tx1)"
  shows "h = [n]" and "create_nested n tx = Inr tx1"
  using assms by (auto simp: CreateBucketIfNotExists_def split: sum.splits)

lemma Create_at:
  assumes "CreateBucketIfNotExists [m] n tx = Inr (h, tx1)"
  obtains b b1 where "get_bucket tx [m] = Some b" "create_nested n b = Inr b1"
    "h = [m, n]" "tx1 = set_bucket tx [m] b1"
  using assms
  by (auto simp: CreateBucketIfNotExists_def simp del: get_bucket.simps set_bucket.simps
           split: option.splits sum.splits)

lemma lookup_empty: "lookup k (Bkt []) = None"
  by (simp add: lookup_def)

lemma get_bucket_one:
  "get_bucket tx [n] = (case lookup n tx of Some (Sub s) \<Rightarrow> Some s | _ \<Rightarrow> None)"
  by (simp split: option.splits item.splits)

lemma get_bucket_two:
  "get_bucket tx [m, n] = (case get_bucket tx [m] of None \<Rightarrow> None | Some b \<Rightarrow> get_bucket b [n])"
  by (simp split: option.splits item.splits)

lemma get_bucket_two_Some:
  "get_bucket tx [m] = Some b \<Longrightarrow> get_bucket tx [m, n] = get_bucket b [n]"
  by (simp add: get_bucket_two del: get_bucket.simps)

lemma get_set_inner:
  assumes "get_bucket tx [m, n] = Some i"
  shows "\<exists>b. get_bucket (set_bucket tx [m, n] j) [m] = Some b"
  using get_set_same [OF assms, of j]
  by (auto simp: get_bucket_two simp del: get_bucket.simps set_bucket.simps
           split: option.splits)



lemma create_nested_entries:
  "create_nested n b = Inr b1 \<Longrightarrow> set (entries b1) \<subseteq> insert (n, Sub (Bkt [])) (set (entries b))"
  by (auto simp: create_nested_def upsert_def set_insert_entry
           split: if_splits option.splits item.splits)

text \<open>A bucket and a bucket nested in it, both created if they do not exist.\<close>

lemma create_pair:
  assumes c1: "CreateBucketIfNotExists [] n tx = Inr (h1, tx1)"
    and c2: "CreateBucketIfNotExists h1 m tx1 = Inr (h2, tx2)"
  obtains b2 i0 where "h1 = [n]" "h2 = [n, m]"
    "get_bucket tx2 [n] = Some b2" "get_bucket tx2 [n, m] = Some i0"
    "\<And>x. x \<noteq> n \<Longrightarrow> lookup x tx2 = lookup x tx"
    "\<And>b. get_bucket tx [n] = Some b \<Longrightarrow> set (entries b) \<subseteq> set (entries b2)"
    "set (entries b2) \<subseteq>
       insert (m, Sub (Bkt []))
         (case get_bucket tx [n] of None \<Rightarrow> {} | Some b \<Rightarrow> set (entries b))"
    "case get_bucket tx [n, m] of None \<Rightarrow> i0 = Bkt [] | Some i \<Rightarrow> i0 = i"
proof -
  from Create_root [OF c1] have h1: "h1 = [n]" and n1: "create_nested n tx = Inr tx1"
    by simp_all
  from create_nested_Inr(1) [OF n1] obtain b1 where
    l1: "lookup n tx1 = Some (Sub b1)" and
    o1: "case lookup n tx of None \<Rightarrow> b1 = Bkt [] | Some it \<Rightarrow> it = Sub b1"
    by blast
  have g1: "get_bucket tx1 [n] = Some b1"
    by (simp add: get_bucket_one l1 del: get_bucket.simps)
  from c2 [unfolded h1] obtain b b2 where
    "get_bucket tx1 [n] = Some b" and "create_nested m b = Inr b2" and
    h2: "h2 = [n, m]" and tx2: "tx2 = set_bucket tx1 [n] b2"
    by (rule Create_at)
  with g1 have n2: "create_nested m b1 = Inr b2" by simp
  have g2: "get_bucket tx2 [n] = Some b2"
    unfolding tx2 using g1 by (rule get_set_same)
  from create_nested_Inr(1) [OF n2] obtain i0 where
    li: "lookup m b2 = Some (Sub i0)" and
    oi: "case lookup m b1 of None \<Rightarrow> i0 = Bkt [] | Some it \<Rightarrow> it = Sub i0"
    by blast
  have gi: "get_bucket tx2 [n, m] = Some i0"
    by (simp add: get_bucket_two_Some [OF g2] get_bucket_one li del: get_bucket.simps)
  have fr: "lookup x tx2 = lookup x tx" if "x \<noteq> n" for x
    unfolding tx2 using lookup_set_other [of x n tx1 "[]" b2] create_nested_Inr(2) [OF n1] that
    by simp
  have s1: "set (entries b) \<subseteq> set (entries b2)" if "get_bucket tx [n] = Some b" for b
  proof -
    from that o1 have "b1 = b"
      by (auto simp: get_bucket_one simp del: get_bucket.simps split: option.splits item.splits)
    with create_nested_Inr(3) [OF n2] show ?thesis by simp
  qed
  have s2: "set (entries b2) \<subseteq>
       insert (m, Sub (Bkt []))
         (case get_bucket tx [n] of None \<Rightarrow> {} | Some b \<Rightarrow> set (entries b))"
  proof (cases "get_bucket tx [n]")
    case None
    with o1 have "b1 = Bkt []"
      by (auto simp: get_bucket_one simp del: get_bucket.simps split: option.splits item.splits)
    with create_nested_entries [OF n2] None show ?thesis by simp
  next
    case (Some b)
    with o1 have "b1 = b"
      by (auto simp: get_bucket_one simp del: get_bucket.simps split: option.splits item.splits)
    with create_nested_entries [OF n2] Some show ?thesis by simp
  qed
  have s3: "case get_bucket tx [n, m] of None \<Rightarrow> i0 = Bkt [] | Some i \<Rightarrow> i0 = i"
    using o1 oi
    by (auto simp: get_bucket_two get_bucket_one lookup_empty simp del: get_bucket.simps
             split: option.splits item.splits)
  from h1 h2 g2 gi fr s1 s2 s3 show ?thesis by (rule that)
qed


text \<open>The two scans of \<open>migrateNodeAndEdgeUpdateIndex\<close>, on the contents of the index.\<close>

lemma node_scan:
  assumes "get_bucket tx2 [n] = Some b2" "get_bucket tx2 [n, m] = Some i0"
  shows "ForEach [n] (nodeVisitor [n, m]) tx2 =
     (case write_loop node_step (entries b2) i0 of
        Inl f \<Rightarrow> Inl f
      | Inr i3 \<Rightarrow> Inr (set_bucket tx2 [n, m] i3))"
  using assms(2,1) nodeVisitor_step by (rule ForEach_sim)

lemma edge_scan:
  assumes e: "get_bucket tx5 [n] = Some b5" and i: "get_bucket tx5 [n, m] = Some i0"
    and nodes: "get_bucket tx5 [x] = Some nodesNow" and ne: "x \<noteq> n"
  shows "ForEach [n] (edgeVisitor dec [x] [n, m]) tx5 =
     (case write_loop (edge_step dec nodesNow) (entries b5) i0 of
        Inl f \<Rightarrow> Inl f
      | Inr i6 \<Rightarrow> Inr (set_bucket tx5 [n, m] i6))"
proof -
  have "get_bucket (set_bucket tx5 [n, m] j) [x] = Some nodesNow" for j
    using get_set_other [of x n tx5 "[m]" j "[]"] ne nodes by simp
  then have "edgeVisitor dec [x] [n, m] k v (set_bucket tx5 [n, m] j) =
       (case edge_step dec nodesNow k v of
          None \<Rightarrow> Inr (set_bucket tx5 [n, m] j)
        | Some (Inl f) \<Rightarrow> Inl f
        | Some (Inr (k', v')) \<Rightarrow> Put [n, m] k' v' (set_bucket tx5 [n, m] j))"
    for k v j
    by (rule edgeVisitor_step)
  with i e show ?thesis by (rule ForEach_sim)
qed

lemma migrateNodeAndEdgeUpdateIndex_Inr:
  assumes ok: "migrateNodeAndEdgeUpdateIndex c dec tx = Inr tx'"
    and ne: "nodeBucket c \<noteq> edgeBucket c"
  obtains nodes2 idx0 idx3 nodes3 edges2 eidx0 eidx6 where
    "\<And>b. get_bucket tx [nodeBucket c] = Some b \<Longrightarrow> set (entries b) \<subseteq> set (entries nodes2)"
    "case get_bucket tx [nodeBucket c, nodeUpdateIndexBucket c] of
       None \<Rightarrow> idx0 = Bkt [] | Some i \<Rightarrow> idx0 = i"
    "write_loop node_step (entries nodes2) idx0 = Inr idx3"
    "get_bucket tx' [nodeBucket c, nodeUpdateIndexBucket c] = Some idx3"
    "get_bucket tx' [nodeBucket c] = Some nodes3"
    "\<And>b. get_bucket tx [edgeBucket c] = Some b \<Longrightarrow> set (entries b) \<subseteq> set (entries edges2)"
    "case get_bucket tx [edgeBucket c, edgeUpdateIndexBucket c] of
       None \<Rightarrow> eidx0 = Bkt [] | Some i \<Rightarrow> eidx0 = i"
    "write_loop (edge_step dec nodes3) (entries edges2) eidx0 = Inr eidx6"
    "get_bucket tx' [edgeBucket c, edgeUpdateIndexBucket c] = Some eidx6"
proof -
  let ?nb = "nodeBucket c" and ?nui = "nodeUpdateIndexBucket c"
  let ?eb = "edgeBucket c" and ?eui = "edgeUpdateIndexBucket c"
  from ok obtain nodes tx1 nodeUpdateIndex tx2 tx3 edges tx4 edgeUpdateIndex tx5 where
    c1: "CreateBucketIfNotExists [] ?nb tx = Inr (nodes, tx1)" and
    c2: "CreateBucketIfNotExists nodes ?nui tx1 = Inr (nodeUpdateIndex, tx2)" and
    f1: "ForEach nodes (nodeVisitor nodeUpdateIndex) tx2 = Inr tx3" and
    c3: "CreateBucketIfNotExists [] ?eb tx3 = Inr (edges, tx4)" and
    c4: "CreateBucketIfNotExists edges ?eui tx4 = Inr (edgeUpdateIndex, tx5)" and
    f2: "ForEach edges (edgeVisitor dec nodes edgeUpdateIndex) tx5 = Inr tx'"
    unfolding migrateNodeAndEdgeUpdateIndex_def
    by (auto split: sum.splits prod.splits)
  from c1 c2 obtain nodes2 idx0 where
    nodes: "nodes = [?nb]" and nui: "nodeUpdateIndex = [?nb, ?nui]" and
    g2: "get_bucket tx2 [?nb] = Some nodes2" and gi: "get_bucket tx2 [?nb, ?nui] = Some idx0" and
    fr2: "\<And>x. x \<noteq> ?nb \<Longrightarrow> lookup x tx2 = lookup x tx" and
    s1: "\<And>b. get_bucket tx [?nb] = Some b \<Longrightarrow> set (entries b) \<subseteq> set (entries nodes2)" and
    "set (entries nodes2) \<subseteq>
       insert (?nui, Sub (Bkt []))
         (case get_bucket tx [?nb] of None \<Rightarrow> {} | Some b \<Rightarrow> set (entries b))" and
    s2: "case get_bucket tx [?nb, ?nui] of None \<Rightarrow> idx0 = Bkt [] | Some i \<Rightarrow> idx0 = i"
    by (rule create_pair) (rule that; assumption)
  from f1 node_scan [OF g2 gi]
  obtain idx3 where w1: "write_loop node_step (entries nodes2) idx0 = Inr idx3"
    and tx3: "tx3 = set_bucket tx2 [?nb, ?nui] idx3"
    by (auto simp: nodes nui split: sum.splits)
  have gi3: "get_bucket tx3 [?nb, ?nui] = Some idx3"
    unfolding tx3 using gi by (rule get_set_same)
  from get_set_inner [OF gi, of idx3] obtain nodes3 where
    g3: "get_bucket tx3 [?nb] = Some nodes3"
    unfolding tx3 by blast
  have fr3: "lookup x tx3 = lookup x tx" if "x \<noteq> ?nb" for x
    unfolding tx3 using lookup_set_other [of x ?nb tx2 "[?nui]" idx3] fr2 that by simp
  from c3 c4 obtain edges2 eidx0 where
    edges: "edges = [?eb]" and eui: "edgeUpdateIndex = [?eb, ?eui]" and
    g5: "get_bucket tx5 [?eb] = Some edges2" and ge: "get_bucket tx5 [?eb, ?eui] = Some eidx0" and
    fr5: "\<And>x. x \<noteq> ?eb \<Longrightarrow> lookup x tx5 = lookup x tx3" and
    s3': "\<And>b. get_bucket tx3 [?eb] = Some b \<Longrightarrow> set (entries b) \<subseteq> set (entries edges2)" and
    "set (entries edges2) \<subseteq>
       insert (?eui, Sub (Bkt []))
         (case get_bucket tx3 [?eb] of None \<Rightarrow> {} | Some b \<Rightarrow> set (entries b))" and
    s4': "case get_bucket tx3 [?eb, ?eui] of None \<Rightarrow> eidx0 = Bkt [] | Some i \<Rightarrow> eidx0 = i"
    by (rule create_pair) (rule that; assumption)
  have e3: "get_bucket tx3 (?eb # q) = get_bucket tx (?eb # q)" for q
    using fr3 [of ?eb] ne by (intro get_bucket_lookup_cong) simp
  have n5: "get_bucket tx5 (?nb # q) = get_bucket tx3 (?nb # q)" for q
    using fr5 [of ?nb] ne by (intro get_bucket_lookup_cong) simp
  from g3 have g5n: "get_bucket tx5 [?nb] = Some nodes3" by (simp only: n5)
  from f2 edge_scan [OF g5 ge g5n ne, of dec]
  obtain eidx6 where w2: "write_loop (edge_step dec nodes3) (entries edges2) eidx0 = Inr eidx6"
    and tx': "tx' = set_bucket tx5 [?eb, ?eui] eidx6"
    by (auto simp: nodes edges eui split: sum.splits)
  have n6: "get_bucket tx' (?nb # q) = get_bucket tx3 (?nb # q)" for q
    unfolding tx' using get_set_other [of ?nb ?eb tx5 "[?eui]" eidx6 q] ne n5 [of q] by simp
  have r1: "get_bucket tx' [?eb, ?eui] = Some eidx6"
    unfolding tx' using ge by (rule get_set_same)
  have r2: "get_bucket tx' [?nb, ?nui] = Some idx3"
    using gi3 by (simp only: n6)
  have r3: "get_bucket tx' [?nb] = Some nodes3"
    using g3 by (simp only: n6)
  have s3: "\<And>b. get_bucket tx [?eb] = Some b \<Longrightarrow> set (entries b) \<subseteq> set (entries edges2)"
    using s3' by (simp only: e3)
  have s4: "case get_bucket tx [?eb, ?eui] of None \<Rightarrow> eidx0 = Bkt [] | Some i \<Rightarrow> eidx0 = i"
    using s4' by (simp only: e3)
  from s1 s2 w1 r2 r3 s3 s4 w2 r1 show ?thesis by (rule that)
qed

lemma ex_graph_migrates:
  "migrateNodeAndEdgeUpdateIndex ex_constants ex_decodePolicy ex_graph = Inr ex_graph_migrated"
  by (simp add: migrateNodeAndEdgeUpdateIndex_def nodeVisitor_def edgeVisitor_def eval_defs
        slice_to_def copy_into_def PutUint64_def uint64_def Let_def
        ex_constants_def ex_decodePolicy_def ex_graph_def ex_graph_migrated_def
        ex_nodePub_def ex_edgeKey_def ex_nodeIndexKey_def)







lemma empty_store:
  assumes "nodeBucket c \<noteq> []" "nodeUpdateIndexBucket c \<noteq> []" "edgeBucket c \<noteq> []"
    "edgeUpdateIndexBucket c \<noteq> []" "nodeBucket c \<noteq> edgeBucket c"
    "length (nodeUpdateIndexBucket c) \<noteq> 33" "length (edgeUpdateIndexBucket c) \<noteq> 41"
  shows "migrateNodeAndEdgeUpdateIndex c dec (Bkt []) =
     Inr (Bkt (insert_entry (edgeBucket c) (Sub (Bkt [(edgeUpdateIndexBucket c, Sub (Bkt []))]))
                [(nodeBucket c, Sub (Bkt [(nodeUpdateIndexBucket c, Sub (Bkt []))]))]))"
  using assms
  by (auto simp: migrateNodeAndEdgeUpdateIndex_def CreateBucketIfNotExists_def
        create_nested_def ForEach_def lookup_def upsert_def nodeVisitor_def edgeVisitor_def)

section \<open>Properties of the migrations\<close>

text \<open>
  C1, as the code has it. The payment and the invoice visitor treat a \<open>nil\<close> value as
  not applicable: whatever the codecs are, they return without error and leave the
  transaction as it was, so no codec result and no write is involved. The node and the
  edge visitor skip an entry by the length of its key (33 and 41 bytes), not by its
  value: under a key of another length a \<open>nil\<close> value is skipped as well.
\<close>

theorem nil_values_skipped:
  "paymentVisitor c deserializeOutgoingPayment serializeOutgoingPayment h k None tx = Inr tx \<and>
   invoiceVisitor c deserializeInvoice serializeInvoice h k None tx = Inr tx \<and>
   (length k \<noteq> 33 \<longrightarrow> nodeVisitor h k None tx = Inr tx) \<and>
   (length k \<noteq> 41 \<longrightarrow> edgeVisitor deserializeChanEdgePolicy nodes h k None tx = Inr tx)"
  by (simp add: paymentVisitor_def invoiceVisitor_def nodeVisitor_def edgeVisitor_def)

theorem nil_values_skipped_witness:
  "length [7 :: byte] \<noteq> 33 \<and> length [7 :: byte] \<noteq> 41 \<and>
   paymentVisitor ex_constants ex_decode ex_encode [[5]] [7] None (Bkt []) = Inr (Bkt []) \<and>
   invoiceVisitor ex_constants ex_decode ex_encode [[5]] [7] None (Bkt []) = Inr (Bkt []) \<and>
   nodeVisitor [[5]] [7] None (Bkt []) = Inr (Bkt []) \<and>
   edgeVisitor (\<lambda>r n. Inl (CodecError ''EOF'') :: error + ChannelEdgePolicy)
     [[1]] [[5]] [7] None (Bkt []) = Inr (Bkt [])"
  using nil_values_skipped
          [where c = ex_constants and deserializeOutgoingPayment = ex_decode
             and serializeOutgoingPayment = ex_encode and deserializeInvoice = ex_decode
             and serializeInvoice = ex_encode and h = "[[5]]" and k = "[7]" and tx = "Bkt []"
             and deserializeChanEdgePolicy =
                   "\<lambda>r n. Inl (CodecError ''EOF'') :: error + ChannelEdgePolicy"
             and nodes = "[[1]]"]
  by simp

text \<open>
  C1 in its general form does not hold of every visitor. A nested bucket with a 33-byte
  name inside the node bucket reaches \<open>nodeInfo[:8]\<close> with \<open>nodeInfo = nil\<close>, which
  panics; and a nested bucket inside the forwarding-log bucket is handed to the decoder
  (as the empty byte sequence), whose error the visitor returns.
\<close>

theorem nil_values_counterexample:
  "nodeVisitor [[1], [2]] (replicate 33 0) None
     (Bkt [([1], Sub (Bkt [(replicate 33 0, Sub (Bkt [])), ([2], Sub (Bkt []))]))])
     = Inl Panicked \<and>
   forwardVisitor ex_constants 1 ex_decodeEvent ex_encodeEvent [[7]] [5] None
     (Bkt [([7], Sub (Bkt [([5], Sub (Bkt []))]))])
     = Inl (Returned (CodecError ''EOF'')) \<and>
   migrateAddTypeToForwardEvent ex_constants 1 ex_decodeEvent ex_encodeEvent
     (Bkt [([7], Sub (Bkt [([5], Sub (Bkt []))]))])
     = Inl (Returned (CodecError ''EOF''))"
  by (simp add: nodeVisitor_def slice_to_def forwardVisitor_def NewReader_def
        migrateAddTypeToForwardEvent_def Bucket_def ForEach_def lookup_def
        ex_constants_def ex_decodeEvent_def)

text \<open>
  C2. After \<open>migrateNodeAndEdgeUpdateIndex\<close> has succeeded (the node and the edge
  bucket being two buckets, and the keys of an index that was already there being
  unique), every entry of the node bucket with a 33-byte key is a leaf of at least 8
  bytes, and the node-update index holds exactly one entry under the 41-byte key made of
  the first 8 bytes of that value followed by the 33-byte key; its value is empty.
\<close>

theorem node_index_complete:
  assumes ok: "migrateNodeAndEdgeUpdateIndex c deserializeChanEdgePolicy tx = Inr tx'"
    and ne: "nodeBucket c \<noteq> edgeBucket c"
    and uni: "case get_bucket tx [nodeBucket c, nodeUpdateIndexBucket c] of
                None \<Rightarrow> True | Some i \<Rightarrow> unique_keys i"
    and nodes: "get_bucket tx [nodeBucket c] = Some nodes"
    and entry: "(nodePub, it) \<in> set (entries nodes)"
    and len: "length nodePub = 33"
  shows "\<exists>nodeInfo idx.
           it = Leaf nodeInfo \<and> 8 \<le> length nodeInfo \<and>
           get_bucket tx' [nodeBucket c, nodeUpdateIndexBucket c] = Some idx \<and>
           length (take 8 nodeInfo @ nodePub) = 41 \<and>
           filter (\<lambda>e. fst e = take 8 nodeInfo @ nodePub) (entries idx)
             = [(take 8 nodeInfo @ nodePub, Leaf [])]"
proof -
  from ok ne obtain nodes2 idx0 idx3 where
    s1: "\<And>b. get_bucket tx [nodeBucket c] = Some b \<Longrightarrow>
              set (entries b) \<subseteq> set (entries nodes2)" and
    s2: "case get_bucket tx [nodeBucket c, nodeUpdateIndexBucket c] of
           None \<Rightarrow> idx0 = Bkt [] | Some i \<Rightarrow> idx0 = i" and
    w: "write_loop node_step (entries nodes2) idx0 = Inr idx3" and
    r: "get_bucket tx' [nodeBucket c, nodeUpdateIndexBucket c] = Some idx3"
    by (rule migrateNodeAndEdgeUpdateIndex_Inr) (rule that; assumption)
  from s1 [OF nodes] entry have m: "(nodePub, it) \<in> set (entries nodes2)" by blast
  from write_loop_no_failure [OF w m] have "node_step nodePub (item_value it) \<noteq> Some (Inl Panicked)" .
  from node_step_33 [OF len this] obtain nodeInfo where
    it: "it = Leaf nodeInfo" and l8: "8 \<le> length nodeInfo" by blast
  let ?key = "take 8 nodeInfo @ nodePub"
  have "node_step nodePub (item_value it) = Some (Inr (?key, []))"
    using node_step_key [OF len l8] by (simp add: it)
  from write_loop_writes [OF writes_value_node_step w m this]
  have l: "lookup ?key idx3 = Some (Leaf [])" .
  from uni s2 have "unique_keys idx0"
    by (auto simp: unique_keys_def simp del: get_bucket.simps split: option.splits)
  with w have "unique_keys idx3" by (rule write_loop_unique)
  from unique_entry [OF this l] it l8 r len show ?thesis by simp
qed

theorem node_index_complete_witness:
  "migrateNodeAndEdgeUpdateIndex ex_constants ex_decodePolicy ex_graph = Inr ex_graph_migrated \<and>
   get_bucket ex_graph [nodeBucket ex_constants]
     = Some (Bkt [(ex_nodePub, Leaf [0, 0, 0, 0, 0, 0, 3, 232, 9, 9])]) \<and>
   length ex_nodePub = 33 \<and>
   get_bucket ex_graph_migrated [nodeBucket ex_constants, nodeUpdateIndexBucket ex_constants]
     = Some (Bkt [(ex_nodeIndexKey, Leaf [])]) \<and>
   ex_nodeIndexKey = take 8 [0, 0, 0, 0, 0, 0, 3, 232, 9, 9] @ ex_nodePub \<and>
   filter (\<lambda>e. fst e = ex_nodeIndexKey) [(ex_nodeIndexKey, Leaf [])]
     = [(ex_nodeIndexKey, Leaf [])]"
  using node_index_complete
          [where c = ex_constants and deserializeChanEdgePolicy = ex_decodePolicy
             and tx = ex_graph and tx' = ex_graph_migrated
             and nodes = "Bkt [(ex_nodePub, Leaf [0, 0, 0, 0, 0, 0, 3, 232, 9, 9])]"
             and nodePub = ex_nodePub and it = "Leaf [0, 0, 0, 0, 0, 0, 3, 232, 9, 9]"]
        ex_graph_migrates
  by (simp add: lookup_def ex_constants_def ex_graph_def ex_graph_migrated_def
        ex_nodePub_def ex_nodeIndexKey_def)

text \<open>
  C3. After \<open>migrateNodeAndEdgeUpdateIndex\<close> has succeeded (the node and the edge
  bucket being two buckets), the value of every entry of the edge bucket with a 41-byte
  key decodes as an edge policy, and the edge-update index holds, with the empty value,
  the 16-byte key made of the policy's update time (\<open>uint64(LastUpdate.Unix())\<close>) as 8
  big-endian bytes followed by the last 8 bytes of the 41-byte key.
\<close>

theorem edge_index_complete:
  assumes ok: "migrateNodeAndEdgeUpdateIndex c deserializeChanEdgePolicy tx = Inr tx'"
    and ne: "nodeBucket c \<noteq> edgeBucket c"
    and edges: "get_bucket tx [edgeBucket c] = Some edges"
    and entry: "(edgeKey, it) \<in> set (entries edges)"
    and len: "length edgeKey = 41"
  shows "\<exists>nodesNow edgePolicy idx.
           get_bucket tx' [nodeBucket c] = Some nodesNow \<and>
           deserializeChanEdgePolicy (NewReader (item_value it)) nodesNow = Inr edgePolicy \<and>
           get_bucket tx' [edgeBucket c, edgeUpdateIndexBucket c] = Some idx \<and>
           length (PutUint64 (uint64 (LastUpdate_Unix edgePolicy)) @ drop 33 edgeKey) = 16 \<and>
           lookup (PutUint64 (uint64 (LastUpdate_Unix edgePolicy)) @ drop 33 edgeKey) idx
             = Some (Leaf [])"
proof -
  from ok ne obtain nodes3 edges2 eidx0 eidx6 where
    n: "get_bucket tx' [nodeBucket c] = Some nodes3" and
    s: "\<And>b. get_bucket tx [edgeBucket c] = Some b \<Longrightarrow>
             set (entries b) \<subseteq> set (entries edges2)" and
    w: "write_loop (edge_step deserializeChanEdgePolicy nodes3) (entries edges2) eidx0
          = Inr eidx6" and
    r: "get_bucket tx' [edgeBucket c, edgeUpdateIndexBucket c] = Some eidx6"
    by (rule migrateNodeAndEdgeUpdateIndex_Inr) (rule that; assumption)
  from s [OF edges] entry have m: "(edgeKey, it) \<in> set (entries edges2)" by blast
  obtain edgePolicy where
    d: "deserializeChanEdgePolicy (NewReader (item_value it)) nodes3 = Inr edgePolicy"
  proof (cases "deserializeChanEdgePolicy (NewReader (item_value it)) nodes3")
    case (Inl err)
    with len have "edge_step deserializeChanEdgePolicy nodes3 edgeKey (item_value it)
                     = Some (Inl (Returned err))"
      by (simp add: edge_step_def)
    with write_loop_no_failure [OF w m, of "Returned err"] show ?thesis by simp
  next
    case (Inr p)
    then show ?thesis by (rule that)
  qed
  let ?key = "PutUint64 (uint64 (LastUpdate_Unix edgePolicy)) @ drop 33 edgeKey"
  have "edge_step deserializeChanEdgePolicy nodes3 edgeKey (item_value it)
          = Some (Inr (?key, []))"
    using len d by (rule edge_step_key)
  from write_loop_writes [OF writes_value_edge_step w m this]
  have "lookup ?key eidx6 = Some (Leaf [])" .
  with n d r len show ?thesis by (simp add: length_PutUint64)
qed

theorem edge_index_complete_witness:
  "migrateNodeAndEdgeUpdateIndex ex_constants ex_decodePolicy ex_graph = Inr ex_graph_migrated \<and>
   get_bucket ex_graph [edgeBucket ex_constants] = Some (Bkt [(ex_edgeKey, Leaf [1])]) \<and>
   length ex_edgeKey = 41 \<and>
   ex_decodePolicy (NewReader (item_value (Leaf [1]))) (Bkt [])
     = Inr \<lparr>ChannelID = 0, LastUpdate_Unix = 1\<rparr> \<and>
   PutUint64 (uint64 1) @ drop 33 ex_edgeKey = [0, 0, 0, 0, 0, 0, 0, 1, 0, 0, 0, 0, 0, 0, 0, 5] \<and>
   get_bucket ex_graph_migrated [edgeBucket ex_constants, edgeUpdateIndexBucket ex_constants]
     = Some (Bkt [([0, 0, 0, 0, 0, 0, 0, 1, 0, 0, 0, 0, 0, 0, 0, 5], Leaf [])])"
  using edge_index_complete
          [where c = ex_constants and deserializeChanEdgePolicy = ex_decodePolicy
             and tx = ex_graph and tx' = ex_graph_migrated
             and edges = "Bkt [(ex_edgeKey, Leaf [1])]"
             and edgeKey = ex_edgeKey and it = "Leaf [1]"]
        ex_graph_migrates
  by (simp add: lookup_def NewReader_def PutUint64_def uint64_def ex_constants_def
        ex_decodePolicy_def ex_graph_def ex_graph_migrated_def ex_edgeKey_def)



text \<open>
  C5. A visitor of \<open>migrateNodeAndEdgeUpdateIndex\<close> that meets a key of another length
  than its fixed width (33 bytes in the node bucket, 41 in the edge bucket) returns
  without error and leaves the whole transaction as it was: nothing is read, decoded or
  written for that entry.
\<close>

theorem skip_on_foreign_keys:
  "(length nodePub \<noteq> 33 \<longrightarrow> nodeVisitor nodeUpdateIndex nodePub nodeInfo tx = Inr tx) \<and>
   (length edgeKey \<noteq> 41 \<longrightarrow>
      edgeVisitor deserializeChanEdgePolicy nodes edgeUpdateIndex edgeKey edgePolicyBytes tx
        = Inr tx)"
  by (simp add: nodeVisitor_def edgeVisitor_def)

theorem skip_on_foreign_keys_witness:
  "length [7 :: byte] \<noteq> 33 \<and> length [7 :: byte] \<noteq> 41 \<and>
   nodeVisitor [[1], [2]] [7] (Some [1]) (Bkt [([9], Leaf [])]) = Inr (Bkt [([9], Leaf [])]) \<and>
   edgeVisitor (\<lambda>r n. Inl (CodecError ''EOF'') :: error + ChannelEdgePolicy)
      [[1]] [[3], [4]] [7] (Some [1]) (Bkt [([9], Leaf [])]) = Inr (Bkt [([9], Leaf [])])"
  using skip_on_foreign_keys
          [where nodePub = "[7]" and nodeUpdateIndex = "[[1], [2]]" and nodeInfo = "Some [1]"
             and tx = "Bkt [([9], Leaf [])]" and edgeKey = "[7]"
             and deserializeChanEdgePolicy =
                   "\<lambda>r n. Inl (CodecError ''EOF'') :: error + ChannelEdgePolicy"
             and nodes = "[[1]]" and edgeUpdateIndex = "[[3], [4]]"
             and edgePolicyBytes = "Some [1]"]
  by simp

text \<open>
  C6. \<open>migrateAddInvoiceWithChannelPoint\<close>, when it succeeds (the payment and the
  invoice bucket being two buckets with unique keys): in each of the two buckets the
  entries keep their keys in their order; every leaf value has been decoded with
  version \<open>nodeAndEdgeUpdateIndexVersion\<close>, encoded with version
  \<open>invoiceWithChannelPointVersion\<close> and put back under its key; every nested bucket
  (\<open>nil\<close> value) is as it was; and nothing else in the transaction has changed.
\<close>

theorem records_reencoded:
  assumes ok: "migrateAddInvoiceWithChannelPoint c deserializeOutgoingPayment
                 serializeOutgoingPayment deserializeInvoice serializeInvoice tx = Inr tx'"
    and ne: "paymentBucket c \<noteq> invoiceBucket c"
    and up: "case get_bucket tx [paymentBucket c] of None \<Rightarrow> True | Some b \<Rightarrow> unique_keys b"
    and ui: "case get_bucket tx [invoiceBucket c] of None \<Rightarrow> True | Some b \<Rightarrow> unique_keys b"
  shows "(case get_bucket tx [paymentBucket c] of
            None \<Rightarrow> get_bucket tx' [paymentBucket c] = None
          | Some b \<Rightarrow>
              \<exists>b'. get_bucket tx' [paymentBucket c] = Some b' \<and>
                   list_all2 (reencoded c deserializeOutgoingPayment serializeOutgoingPayment)
                     (entries b) (entries b')) \<and>
         (case get_bucket tx [invoiceBucket c] of
            None \<Rightarrow> get_bucket tx' [invoiceBucket c] = None
          | Some b \<Rightarrow>
              \<exists>b'. get_bucket tx' [invoiceBucket c] = Some b' \<and>
                   list_all2 (reencoded c deserializeInvoice serializeInvoice)
                     (entries b) (entries b')) \<and>
         (\<forall>n. n \<noteq> paymentBucket c \<and> n \<noteq> invoiceBucket c \<longrightarrow> lookup n tx' = lookup n tx)"
proof -
  let ?pn = "paymentBucket c" and ?inn = "invoiceBucket c"
  let ?gp = "reencode_step c deserializeOutgoingPayment serializeOutgoingPayment"
  let ?gi = "reencode_step c deserializeInvoice serializeInvoice"
  let ?Rp = "\<lambda>b b'. list_all2 (reencoded c deserializeOutgoingPayment serializeOutgoingPayment)
                      (entries b) (entries b')"
  let ?Ri = "\<lambda>b b'. list_all2 (reencoded c deserializeInvoice serializeInvoice)
                      (entries b) (entries b')"
  from ok obtain tx1 where
    p1: "(case Bucket [] ?pn tx of None \<Rightarrow> Inr tx
          | Some h \<Rightarrow> ForEach h (paymentVisitor c deserializeOutgoingPayment
                                   serializeOutgoingPayment h) tx) = Inr tx1"
    and p2: "(case Bucket [] ?inn tx1 of None \<Rightarrow> Inr tx1
          | Some h \<Rightarrow> ForEach h (invoiceVisitor c deserializeInvoice serializeInvoice h) tx1)
             = Inr tx'"
    by (auto simp: migrateAddInvoiceWithChannelPoint_def split: sum.splits)
  have up': "\<And>b. get_bucket tx [?pn] = Some b \<Longrightarrow> unique_keys b"
    using up by (simp del: get_bucket.simps)
  have r1: "(get_bucket tx [?pn] = None \<and> tx1 = tx) \<or>
         (\<exists>b b'. get_bucket tx [?pn] = Some b \<and> tx1 = set_bucket tx [?pn] b' \<and> ?Rp b b')"
    using pass_in_place [of ?gp "paymentVisitor c deserializeOutgoingPayment
                                   serializeOutgoingPayment" tx ?pn tx1,
                         OF in_place_reencode_step paymentVisitor_step up' p1]
    by (simp add: rewritten_reencode_step [abs_def] del: get_bucket.simps set_bucket.simps)
  have f1: "\<And>m. m \<noteq> ?pn \<Longrightarrow> lookup m tx1 = lookup m tx"
    by (rule pass_frame [OF r1])
  have i1: "get_bucket tx1 [?inn] = get_bucket tx [?inn]"
    using f1 [of ?inn] ne by (intro get_bucket_lookup_cong) simp
  have ui': "\<And>b. get_bucket tx1 [?inn] = Some b \<Longrightarrow> unique_keys b"
    using ui by (simp add: i1 del: get_bucket.simps)
  have r2: "(get_bucket tx1 [?inn] = None \<and> tx' = tx1) \<or>
         (\<exists>b b'. get_bucket tx1 [?inn] = Some b \<and> tx' = set_bucket tx1 [?inn] b' \<and> ?Ri b b')"
    using pass_in_place [of ?gi "invoiceVisitor c deserializeInvoice serializeInvoice"
                            tx1 ?inn tx',
                         OF in_place_reencode_step invoiceVisitor_step ui' p2]
    by (simp add: rewritten_reencode_step [abs_def] del: get_bucket.simps set_bucket.simps)
  have f2: "\<And>m. m \<noteq> ?inn \<Longrightarrow> lookup m tx' = lookup m tx1"
    by (rule pass_frame [OF r2])
  have p': "get_bucket tx' [?pn] = get_bucket tx1 [?pn]"
    using f2 [of ?pn] ne by (intro get_bucket_lookup_cong) simp
  have "case get_bucket tx [?pn] of None \<Rightarrow> get_bucket tx' [?pn] = None
        | Some b \<Rightarrow> \<exists>b'. get_bucket tx' [?pn] = Some b' \<and> ?Rp b b'"
    using pass_result [OF r1] unfolding p' .
  moreover have "case get_bucket tx [?inn] of None \<Rightarrow> get_bucket tx' [?inn] = None
        | Some b \<Rightarrow> \<exists>b'. get_bucket tx' [?inn] = Some b' \<and> ?Ri b b'"
    using pass_result [OF r2, unfolded i1] .
  moreover have "\<forall>n. n \<noteq> ?pn \<and> n \<noteq> ?inn \<longrightarrow> lookup n tx' = lookup n tx"
    using f1 f2 by simp
  ultimately show ?thesis by blast
qed

theorem records_reencoded_witness:
  "migrateAddInvoiceWithChannelPoint ex_constants ex_decode ex_encode ex_decode ex_encode
     (Bkt [([5], Sub (Bkt [([1], Leaf [10]), ([2], Sub (Bkt []))])),
           ([6], Sub (Bkt [([1], Leaf [20, 21])]))])
     = Inr (Bkt [([5], Sub (Bkt [([1], Leaf [10, 0]), ([2], Sub (Bkt []))])),
                 ([6], Sub (Bkt [([1], Leaf [20, 21, 0])]))]) \<and>
   list_all2 (reencoded ex_constants ex_decode ex_encode)
     [([1], Leaf [10]), ([2], Sub (Bkt []))] [([1], Leaf [10, 0]), ([2], Sub (Bkt []))] \<and>
   list_all2 (reencoded ex_constants ex_decode ex_encode)
     [([1], Leaf [20, 21])] [([1], Leaf [20, 21, 0])]"
  using records_reencoded
          [where c = ex_constants and deserializeOutgoingPayment = ex_decode
             and serializeOutgoingPayment = ex_encode and deserializeInvoice = ex_decode
             and serializeInvoice = ex_encode
             and tx = "Bkt [([5], Sub (Bkt [([1], Leaf [10]), ([2], Sub (Bkt []))])),
                           ([6], Sub (Bkt [([1], Leaf [20, 21])]))]"
             and tx' = "Bkt [([5], Sub (Bkt [([1], Leaf [10, 0]), ([2], Sub (Bkt []))])),
                            ([6], Sub (Bkt [([1], Leaf [20, 21, 0])]))]"]
  by (simp add: migrateAddInvoiceWithChannelPoint_def paymentVisitor_def invoiceVisitor_def
        eval_defs ex_constants_def ex_decode_def ex_encode_def unique_keys_def)

text \<open>
  C7. \<open>migrateAddInvoiceWithChannelPoint\<close> returns the error of the first leaf entry,
  in key order, whose decoding or encoding fails: when the entries before it go through
  (their records decode and encode, to values the store accepts), the result is that
  error, whatever the entries after it are. This holds for the payment bucket, and for
  the invoice bucket once the payment bucket has gone through.
\<close>

theorem first_failure_aborts:
  "(get_bucket tx [paymentBucket c] = Some b \<and> unique_keys b \<and>
    entries b = pre @ (k, Leaf v) # post \<and>
    list_all (reencodable c deserializeOutgoingPayment serializeOutgoingPayment) pre \<and>
    reencode c deserializeOutgoingPayment serializeOutgoingPayment v = Inl err \<longrightarrow>
      migrateAddInvoiceWithChannelPoint c deserializeOutgoingPayment
        serializeOutgoingPayment deserializeInvoice serializeInvoice tx
        = Inl (Returned err)) \<and>
   ((case get_bucket tx [paymentBucket c] of
       None \<Rightarrow> True
     | Some pb \<Rightarrow>
         unique_keys pb \<and>
         list_all (reencodable c deserializeOutgoingPayment serializeOutgoingPayment)
           (entries pb)) \<and>
    paymentBucket c \<noteq> invoiceBucket c \<and>
    get_bucket tx [invoiceBucket c] = Some b \<and> unique_keys b \<and>
    entries b = pre @ (k, Leaf v) # post \<and>
    list_all (reencodable c deserializeInvoice serializeInvoice) pre \<and>
    reencode c deserializeInvoice serializeInvoice v = Inl err \<longrightarrow>
      migrateAddInvoiceWithChannelPoint c deserializeOutgoingPayment
        serializeOutgoingPayment deserializeInvoice serializeInvoice tx
        = Inl (Returned err))"
proof (intro conjI impI)
  let ?h = "[paymentBucket c]"
  assume a: "get_bucket tx ?h = Some b \<and> unique_keys b \<and>
    entries b = pre @ (k, Leaf v) # post \<and>
    list_all (reencodable c deserializeOutgoingPayment serializeOutgoingPayment) pre \<and>
    reencode c deserializeOutgoingPayment serializeOutgoingPayment v = Inl err"
  then have b: "get_bucket tx ?h = Some b" by simp
  from a have "ForEach ?h (paymentVisitor c deserializeOutgoingPayment
                  serializeOutgoingPayment ?h) tx = Inl (Returned err)"
    by (intro ForEach_first_failure [OF in_place_reencode_step b _ paymentVisitor_step,
                                     of pre k "Leaf v" post]
              reencodable_all_ok reencode_step_fails) simp_all
  moreover from b have "Bucket [] (paymentBucket c) tx = Some ?h"
    by (simp add: Bucket_root del: get_bucket.simps)
  ultimately show "migrateAddInvoiceWithChannelPoint c deserializeOutgoingPayment
        serializeOutgoingPayment deserializeInvoice serializeInvoice tx = Inl (Returned err)"
    by (simp add: migrateAddInvoiceWithChannelPoint_def)
next
  let ?h = "[invoiceBucket c]"
  let ?gp = "reencode_step c deserializeOutgoingPayment serializeOutgoingPayment"
  assume a: "(case get_bucket tx [paymentBucket c] of
       None \<Rightarrow> True
     | Some pb \<Rightarrow>
         unique_keys pb \<and>
         list_all (reencodable c deserializeOutgoingPayment serializeOutgoingPayment)
           (entries pb)) \<and>
    paymentBucket c \<noteq> invoiceBucket c \<and>
    get_bucket tx ?h = Some b \<and> unique_keys b \<and>
    entries b = pre @ (k, Leaf v) # post \<and>
    list_all (reencodable c deserializeInvoice serializeInvoice) pre \<and>
    reencode c deserializeInvoice serializeInvoice v = Inl err"
  then have "case get_bucket tx [paymentBucket c] of
       None \<Rightarrow> True
     | Some pb \<Rightarrow> unique_keys pb \<and> list_all (entry_ok ?gp) (entries pb)"
    by (auto simp del: get_bucket.simps split: option.splits intro: reencodable_all_ok)
  from pass_succeeds [of ?gp "paymentVisitor c deserializeOutgoingPayment
                                serializeOutgoingPayment" tx "paymentBucket c",
                      OF in_place_reencode_step paymentVisitor_step this]
  obtain tx1 where
    p1: "(case Bucket [] (paymentBucket c) tx of None \<Rightarrow> Inr tx
          | Some h \<Rightarrow> ForEach h (paymentVisitor c deserializeOutgoingPayment
                                   serializeOutgoingPayment h) tx) = Inr tx1"
    and f1: "\<forall>m. m \<noteq> paymentBucket c \<longrightarrow> lookup m tx1 = lookup m tx"
    by blast
  from a have "invoiceBucket c \<noteq> paymentBucket c" by auto
  with f1 have "lookup (invoiceBucket c) tx1 = lookup (invoiceBucket c) tx" by blast
  then have "get_bucket tx1 ?h = get_bucket tx ?h"
    by (rule get_bucket_lookup_cong)
  with a have b: "get_bucket tx1 ?h = Some b" by simp
  from a have "ForEach ?h (invoiceVisitor c deserializeInvoice serializeInvoice ?h) tx1
                 = Inl (Returned err)"
    by (intro ForEach_first_failure [OF in_place_reencode_step b _ invoiceVisitor_step,
                                     of pre k "Leaf v" post]
              reencodable_all_ok reencode_step_fails) simp_all
  moreover from b have "Bucket [] (invoiceBucket c) tx1 = Some ?h"
    by (simp add: Bucket_root del: get_bucket.simps)
  ultimately show "migrateAddInvoiceWithChannelPoint c deserializeOutgoingPayment
        serializeOutgoingPayment deserializeInvoice serializeInvoice tx = Inl (Returned err)"
    using p1 by (simp add: migrateAddInvoiceWithChannelPoint_def)
qed

theorem first_failure_aborts_witness:
  "reencode ex_constants ex_decode ex_encode [] = Inl (CodecError ''EOF'') \<and>
   list_all (reencodable ex_constants ex_decode ex_encode) [([1], Leaf [10])] \<and>
   migrateAddInvoiceWithChannelPoint ex_constants ex_decode ex_encode ex_decode ex_encode
     (Bkt [([5], Sub (Bkt [([1], Leaf [10]), ([2], Leaf []), ([3], Leaf [])]))])
     = Inl (Returned (CodecError ''EOF'')) \<and>
   migrateAddInvoiceWithChannelPoint ex_constants ex_decode ex_encode ex_decode ex_encode
     (Bkt [([5], Sub (Bkt [([1], Leaf [10])])),
           ([6], Sub (Bkt [([1], Leaf [10]), ([2], Leaf []), ([3], Leaf [30])]))])
     = Inl (Returned (CodecError ''EOF''))"
  using first_failure_aborts
          [where tx = "Bkt [([5], Sub (Bkt [([1], Leaf [10]), ([2], Leaf []), ([3], Leaf [])]))]"
             and c = ex_constants
             and b = "Bkt [([1], Leaf [10]), ([2], Leaf []), ([3], Leaf [])]"
             and pre = "[([1], Leaf [10])]" and k = "[2]" and v = "[]"
             and post = "[([3], Leaf [])]" and err = "CodecError ''EOF''"
             and deserializeOutgoingPayment = ex_decode
             and serializeOutgoingPayment = ex_encode and deserializeInvoice = ex_decode
             and serializeInvoice = ex_encode]
        first_failure_aborts
          [where tx = "Bkt [([5], Sub (Bkt [([1], Leaf [10])])),
                           ([6], Sub (Bkt [([1], Leaf [10]), ([2], Leaf []),
                                           ([3], Leaf [30])]))]"
             and c = ex_constants
             and b = "Bkt [([1], Leaf [10]), ([2], Leaf []), ([3], Leaf [30])]"
             and pre = "[([1], Leaf [10])]" and k = "[2]" and v = "[]"
             and post = "[([3], Leaf [30])]" and err = "CodecError ''EOF''"
             and deserializeOutgoingPayment = ex_decode
             and serializeOutgoingPayment = ex_encode and deserializeInvoice = ex_decode
             and serializeInvoice = ex_encode]
  by (simp add: lookup_def unique_keys_def reencodable_def reencode_def MaxKeySize_def
        MaxValueSize_def ex_constants_def ex_decode_def ex_encode_def)

text \<open>
  C8. \<open>migrateAddTypeToForwardEvent\<close>: when the forwarding-log bucket does not exist
  the function succeeds and the transaction is unchanged. When it exists (with unique
  keys) and the function succeeds, the transaction differs only in that bucket, whose
  entries keep their keys in their order, and every one of them was a leaf that has been
  decoded with version \<open>forwardEventWithType - 1\<close>, given the type \<open>SuccessForward\<close>,
  encoded with version \<open>forwardEventWithType\<close> and written back under its key: no entry
  is skipped.
\<close>

theorem forward_events_backfilled:
  "(Bucket [] (forwardingLogBucket c) tx = None \<longrightarrow>
      migrateAddTypeToForwardEvent c SuccessForward decode encode tx = Inr tx) \<and>
   (get_bucket tx [forwardingLogBucket c] = Some b \<and> unique_keys b \<and>
    migrateAddTypeToForwardEvent c SuccessForward decode encode tx = Inr tx' \<longrightarrow>
      (\<exists>b'. tx' = set_bucket tx [forwardingLogBucket c] b' \<and>
            get_bucket tx' [forwardingLogBucket c] = Some b' \<and>
            list_all2 (backfilled c SuccessForward decode encode) (entries b) (entries b')))"
proof (intro conjI impI)
  assume "Bucket [] (forwardingLogBucket c) tx = None"
  then show "migrateAddTypeToForwardEvent c SuccessForward decode encode tx = Inr tx"
    by (simp add: migrateAddTypeToForwardEvent_def)
next
  let ?h = "[forwardingLogBucket c]"
  let ?g = "backfill_step c SuccessForward decode encode"
  assume a: "get_bucket tx ?h = Some b \<and> unique_keys b \<and>
    migrateAddTypeToForwardEvent c SuccessForward decode encode tx = Inr tx'"
  then have b: "get_bucket tx ?h = Some b" and u: "unique_keys b" by simp_all
  from b have "Bucket [] (forwardingLogBucket c) tx = Some ?h"
    by (simp add: Bucket_root del: get_bucket.simps)
  with a have "ForEach ?h (forwardVisitor c SuccessForward decode encode ?h) tx = Inr tx'"
    by (simp add: migrateAddTypeToForwardEvent_def del: get_bucket.simps)
  from ForEach_in_place [OF in_place_backfill_step b u forwardVisitor_step this]
  obtain b' where "tx' = set_bucket tx ?h b'"
    "list_all2 (rewritten ?g) (entries b) (entries b')" by blast
  then show "\<exists>b'. tx' = set_bucket tx ?h b' \<and> get_bucket tx' ?h = Some b' \<and>
            list_all2 (backfilled c SuccessForward decode encode) (entries b) (entries b')"
    using get_set_same [OF b] by (auto simp: rewritten_backfill_step [abs_def])
qed



theorem forward_events_backfilled_witness:
  "Bucket [] (forwardingLogBucket ex_constants) (Bkt [([5], Sub (Bkt []))]) = None \<and>
   migrateAddTypeToForwardEvent ex_constants 1 ex_decodeEvent ex_encodeEvent
     (Bkt [([5], Sub (Bkt []))]) = Inr (Bkt [([5], Sub (Bkt []))]) \<and>
   unique_keys (Bkt [([1], Leaf [10, 11]), ([2], Leaf [12])]) \<and>
   migrateAddTypeToForwardEvent ex_constants 1 ex_decodeEvent ex_encodeEvent
     (Bkt [([7], Sub (Bkt [([1], Leaf [10, 11]), ([2], Leaf [12])]))])
     = Inr (Bkt [([7], Sub (Bkt [([1], Leaf [10, 11, 1]), ([2], Leaf [12, 1])]))]) \<and>
   list_all2 (backfilled ex_constants 1 ex_decodeEvent ex_encodeEvent)
     [([1], Leaf [10, 11]), ([2], Leaf [12])]
     [([1], Leaf [10, 11, 1]), ([2], Leaf [12, 1])]"
  using forward_events_backfilled
          [where c = ex_constants and tx = "Bkt [([5], Sub (Bkt []))]"
             and SuccessForward = 1 and decode = ex_decodeEvent and encode = ex_encodeEvent
             and b = "Bkt [([1], Leaf [10, 11]), ([2], Leaf [12])]"
             and tx' = "Bkt [([7], Sub (Bkt [([1], Leaf [10, 11, 1]), ([2], Leaf [12, 1])]))]"]
        forward_events_backfilled
          [where c = ex_constants
             and tx = "Bkt [([7], Sub (Bkt [([1], Leaf [10, 11]), ([2], Leaf [12])]))]"
             and SuccessForward = 1 and decode = ex_decodeEvent and encode = ex_encodeEvent
             and b = "Bkt [([1], Leaf [10, 11]), ([2], Leaf [12])]"
             and tx' = "Bkt [([7], Sub (Bkt [([1], Leaf [10, 11, 1]), ([2], Leaf [12, 1])]))]"]
  by (simp add: migrateAddTypeToForwardEvent_def forwardVisitor_def eval_defs
        ex_constants_def ex_decodeEvent_def ex_encodeEvent_def unique_keys_def
        backfilled_def backfill_def)

text \<open>
  C9. For update times \<open>t1 \<le> t2\<close>, as unsigned 64-bit integers, the 8-byte big-endian
  encoding of \<open>t1\<close> is at most that of \<open>t2\<close> in the order of byte strings; and
  conversely two index keys (an encoded time followed by an identity) that stand in key
  order have their times in order, so an index read in key order is non-decreasing in
  time.
\<close>

theorem big_endian_order:
  "(t1 \<le> t2 \<longrightarrow> bytes_le (PutUint64 t1) (PutUint64 t2)) \<and>
   (bytes_le (PutUint64 t1 @ id1) (PutUint64 t2 @ id2) \<longrightarrow> t1 \<le> t2)"
proof -
  have "bytes_less (PutUint64 t1 @ id1) (PutUint64 t2 @ id2) \<longrightarrow> t1 \<le> t2"
    by (auto simp: bytes_less_append length_PutUint64 bytes_less_PutUint64 PutUint64_inj)
  moreover have "PutUint64 t1 @ id1 = PutUint64 t2 @ id2 \<longrightarrow> t1 \<le> t2"
    by (simp add: length_PutUint64 PutUint64_inj)
  ultimately show ?thesis
    by (auto simp: bytes_le_def bytes_less_PutUint64 PutUint64_inj order_le_less)
qed

theorem big_endian_order_witness:
  "(1000 :: 64 word) \<le> 65536 \<and> bytes_le (PutUint64 1000) (PutUint64 65536) \<and>
   bytes_le (PutUint64 1000 @ [9]) (PutUint64 65536 @ [1])"
  using big_endian_order [where ?t1.0 = 1000 and ?t2.0 = 65536 and ?id1.0 = "[9]" and ?id2.0 = "[1]"]
  by (simp add: PutUint64_def bytes_le_def)

text \<open>
  C10. \<open>migrateNodeAndEdgeUpdateIndex\<close> creates what is missing: whenever it succeeds
  (the node and the edge bucket being two buckets), the node bucket, the node-update
  index, the edge bucket and the edge-update index exist. On the empty store it
  succeeds (bucket names are not empty, and the index names are not of the width of a
  key of their bucket), and leaves exactly the node and the edge bucket, each holding
  its empty index.
\<close>

theorem index_buckets_created:
  "(migrateNodeAndEdgeUpdateIndex c deserializeChanEdgePolicy tx = Inr tx' \<and>
    nodeBucket c \<noteq> edgeBucket c \<longrightarrow>
      get_bucket tx' [nodeBucket c] \<noteq> None \<and>
      get_bucket tx' [nodeBucket c, nodeUpdateIndexBucket c] \<noteq> None \<and>
      get_bucket tx' [edgeBucket c] \<noteq> None \<and>
      get_bucket tx' [edgeBucket c, edgeUpdateIndexBucket c] \<noteq> None) \<and>
   (nodeBucket c \<noteq> [] \<and> nodeUpdateIndexBucket c \<noteq> [] \<and> edgeBucket c \<noteq> [] \<and>
    edgeUpdateIndexBucket c \<noteq> [] \<and> nodeBucket c \<noteq> edgeBucket c \<and>
    length (nodeUpdateIndexBucket c) \<noteq> 33 \<and> length (edgeUpdateIndexBucket c) \<noteq> 41 \<longrightarrow>
      (\<exists>tx'. migrateNodeAndEdgeUpdateIndex c deserializeChanEdgePolicy (Bkt []) = Inr tx' \<and>
             set (entries tx') =
               {(nodeBucket c, Sub (Bkt [(nodeUpdateIndexBucket c, Sub (Bkt []))])),
                (edgeBucket c, Sub (Bkt [(edgeUpdateIndexBucket c, Sub (Bkt []))]))} \<and>
             get_bucket tx' [nodeBucket c] = Some (Bkt [(nodeUpdateIndexBucket c, Sub (Bkt []))]) \<and>
             get_bucket tx' [nodeBucket c, nodeUpdateIndexBucket c] = Some (Bkt []) \<and>
             get_bucket tx' [edgeBucket c] = Some (Bkt [(edgeUpdateIndexBucket c, Sub (Bkt []))]) \<and>
             get_bucket tx' [edgeBucket c, edgeUpdateIndexBucket c] = Some (Bkt [])))"
proof (rule conjI; rule impI)
  assume a: "migrateNodeAndEdgeUpdateIndex c deserializeChanEdgePolicy tx = Inr tx' \<and>
    nodeBucket c \<noteq> edgeBucket c"
  then have ok: "migrateNodeAndEdgeUpdateIndex c deserializeChanEdgePolicy tx = Inr tx'"
    and ne: "nodeBucket c \<noteq> edgeBucket c" by simp_all
  from ok ne obtain idx3 nodes3 eidx6 where
    r2: "get_bucket tx' [nodeBucket c, nodeUpdateIndexBucket c] = Some idx3" and
    r3: "get_bucket tx' [nodeBucket c] = Some nodes3" and
    r1: "get_bucket tx' [edgeBucket c, edgeUpdateIndexBucket c] = Some eidx6"
    by (rule migrateNodeAndEdgeUpdateIndex_Inr) (rule that; assumption)
  from r1 have "get_bucket tx' [edgeBucket c] \<noteq> None"
    by (auto simp: get_bucket_two simp del: get_bucket.simps split: option.splits)
  with r1 r2 r3 show "get_bucket tx' [nodeBucket c] \<noteq> None \<and>
      get_bucket tx' [nodeBucket c, nodeUpdateIndexBucket c] \<noteq> None \<and>
      get_bucket tx' [edgeBucket c] \<noteq> None \<and>
      get_bucket tx' [edgeBucket c, edgeUpdateIndexBucket c] \<noteq> None"
    by simp
next
  assume "nodeBucket c \<noteq> [] \<and> nodeUpdateIndexBucket c \<noteq> [] \<and> edgeBucket c \<noteq> [] \<and>
    edgeUpdateIndexBucket c \<noteq> [] \<and> nodeBucket c \<noteq> edgeBucket c \<and>
    length (nodeUpdateIndexBucket c) \<noteq> 33 \<and> length (edgeUpdateIndexBucket c) \<noteq> 41"
  then have e: "migrateNodeAndEdgeUpdateIndex c deserializeChanEdgePolicy (Bkt []) =
     Inr (Bkt (insert_entry (edgeBucket c) (Sub (Bkt [(edgeUpdateIndexBucket c, Sub (Bkt []))]))
                [(nodeBucket c, Sub (Bkt [(nodeUpdateIndexBucket c, Sub (Bkt []))]))]))"
    and ne: "nodeBucket c \<noteq> edgeBucket c"
    by (simp_all add: empty_store)
  from ne show "\<exists>tx'. migrateNodeAndEdgeUpdateIndex c deserializeChanEdgePolicy (Bkt []) = Inr tx' \<and>
             set (entries tx') =
               {(nodeBucket c, Sub (Bkt [(nodeUpdateIndexBucket c, Sub (Bkt []))])),
                (edgeBucket c, Sub (Bkt [(edgeUpdateIndexBucket c, Sub (Bkt []))]))} \<and>
             get_bucket tx' [nodeBucket c] = Some (Bkt [(nodeUpdateIndexBucket c, Sub (Bkt []))]) \<and>
             get_bucket tx' [nodeBucket c, nodeUpdateIndexBucket c] = Some (Bkt []) \<and>
             get_bucket tx' [edgeBucket c] = Some (Bkt [(edgeUpdateIndexBucket c, Sub (Bkt []))]) \<and>
             get_bucket tx' [edgeBucket c, edgeUpdateIndexBucket c] = Some (Bkt [])"
    unfolding e by (auto simp: lookup_def)
qed

theorem index_buckets_created_witness:
  "migrateNodeAndEdgeUpdateIndex ex_constants ex_decodePolicy ex_graph = Inr ex_graph_migrated \<and>
   get_bucket ex_graph_migrated [nodeBucket ex_constants] \<noteq> None \<and>
   get_bucket ex_graph_migrated [nodeBucket ex_constants, nodeUpdateIndexBucket ex_constants]
     \<noteq> None \<and>
   get_bucket ex_graph_migrated [edgeBucket ex_constants] \<noteq> None \<and>
   get_bucket ex_graph_migrated [edgeBucket ex_constants, edgeUpdateIndexBucket ex_constants]
     \<noteq> None \<and>
   migrateNodeAndEdgeUpdateIndex ex_constants ex_decodePolicy (Bkt [])
     = Inr (Bkt [([1], Sub (Bkt [([2], Sub (Bkt []))])), ([3], Sub (Bkt [([4], Sub (Bkt []))]))])"
  using index_buckets_created
          [where c = ex_constants and deserializeChanEdgePolicy = ex_decodePolicy
             and tx = ex_graph and tx' = ex_graph_migrated]
        ex_graph_migrates
  by (simp add: migrateNodeAndEdgeUpdateIndex_def nodeVisitor_def edgeVisitor_def eval_defs
        ex_constants_def ex_graph_migrated_def)

end
